theory Spec2Isabelle
  imports Main "HOL-Library.Word"
begin

section \<open>Machine integers\<close>

type_synonym uint8 = "8 word"
type_synonym uint16 = "16 word"
type_synonym uint32 = "32 word"
type_synonym uint64 = "64 word"

section \<open>Loot methods (LootMethods.h)\<close>

text \<open>
  \<open>LootItem\<close> and \<open>Loot\<close> are declared by the host core, outside this repository. The
  methods read and write \<open>itemid\<close> and \<open>count\<close> of a \<open>LootItem\<close> and the \<open>items\<close>
  vector of a \<open>Loot\<close>; \<open>count\<close> is an 8-bit field (the method compares it with 255 and
  reads \<open>minCount\<close> as \<open>uint8\<close>). All other fields are the record's extension.
\<close>

record LootItem =
  itemid :: uint32
  count :: uint8

record 'x Loot =
  items :: "'x LootItem_scheme list"

text \<open>
  The \<open>LootStoreItem\<close> built by \<open>AddItem\<close>, with the constructor's argument order
  \<open>(itemid, reference, chance, needs_quest, lootmode, groupid, mincount, maxcount)\<close>.
  The \<open>float\<close> chance is kept abstract as \<open>'c\<close>.
\<close>

record 'c LootStoreItem =
  ls_itemid :: uint32
  ls_reference :: uint32
  ls_chance :: 'c
  ls_needs_quest :: bool
  ls_lootmode :: uint16
  ls_groupid :: uint8
  ls_mincount :: uint8
  ls_maxcount :: uint8

text \<open>
  The range-for loop of \<open>LuaLoot::AddItem\<close>: the first entry with the requested id and
  \<open>count < 255\<close> gets \<open>count += min_count\<close> (8-bit addition) and the method returns;
  \<open>None\<close> when the loop runs to the end without finding one.
\<close>

fun AddItem_loop :: "uint32 \<Rightarrow> uint8 \<Rightarrow> 'x LootItem_scheme list \<Rightarrow> 'x LootItem_scheme list option" where
  "AddItem_loop iid min_count [] = None"
| "AddItem_loop iid min_count (lootitem # rest) =
     (if itemid lootitem = iid \<and> count lootitem < 255
      then Some (lootitem\<lparr>count := count lootitem + min_count\<rparr> # rest)
      else map_option ((#) lootitem) (AddItem_loop iid min_count rest))"

text \<open>
  \<open>LuaLoot::AddItem\<close>. \<open>Loot::AddItem(LootStoreItem)\<close> belongs to the host core and is
  the parameter \<open>Loot_AddItem\<close>.
\<close>

definition AddItem ::
  "('c LootStoreItem \<Rightarrow> ('x, 'y) Loot_scheme \<Rightarrow> ('x, 'y) Loot_scheme) \<Rightarrow>
   uint32 \<Rightarrow> uint8 \<Rightarrow> uint8 \<Rightarrow> 'c \<Rightarrow> uint16 \<Rightarrow> bool \<Rightarrow> ('x, 'y) Loot_scheme \<Rightarrow> ('x, 'y) Loot_scheme" where
  "AddItem Loot_AddItem iid min_count max_count chance loot_mode needs_quest loot =
     (case AddItem_loop iid min_count (items loot) of
        Some its \<Rightarrow> loot\<lparr>items := its\<rparr>
      | None \<Rightarrow>
          Loot_AddItem
            \<lparr>ls_itemid = iid, ls_reference = 0, ls_chance = chance, ls_needs_quest = needs_quest,
             ls_lootmode = loot_mode, ls_groupid = 0, ls_mincount = min_count,
             ls_maxcount = max_count\<rparr> loot)"

text \<open>
  The loop of \<open>LuaLoot::RemoveItem\<close> over \<open>loot->items\<close>, with the running \<open>count\<close>
  (\<open>uint32\<close>). The comparison \<open>it->count > count\<close> and the subtractions are done at 32
  bits after the usual promotion of the 8-bit field; the result of \<open>it->count -= count\<close> is
  stored back at 8 bits.
\<close>

fun RemoveItem_loop :: "uint32 \<Rightarrow> bool \<Rightarrow> uint32 \<Rightarrow> 'x LootItem_scheme list \<Rightarrow> 'x LootItem_scheme list" where
  "RemoveItem_loop iid isCountSpecified cnt [] = []"
| "RemoveItem_loop iid isCountSpecified cnt (it # rest) =
     (if itemid it = iid then
        (if isCountSpecified then
           (if (ucast (count it) :: uint32) > cnt
            then it\<lparr>count := ucast ((ucast (count it) :: uint32) - cnt)\<rparr> # rest
            else RemoveItem_loop iid isCountSpecified (cnt - ucast (count it)) rest)
         else RemoveItem_loop iid isCountSpecified cnt rest)
      else it # RemoveItem_loop iid isCountSpecified cnt rest)"

text \<open>
  \<open>LuaLoot::RemoveItem\<close>: the third Lua argument is read only when \<open>isCountSpecified\<close>
  holds, otherwise the count is 0.
\<close>

definition RemoveItem :: "uint32 \<Rightarrow> bool \<Rightarrow> uint32 \<Rightarrow> ('x, 'y) Loot_scheme \<Rightarrow> ('x, 'y) Loot_scheme" where
  "RemoveItem iid isCountSpecified arg loot =
     loot\<lparr>items := RemoveItem_loop iid isCountSpecified (if isCountSpecified then arg else 0) (items loot)\<rparr>"

text \<open>
  The total count held by the entries of a list that carry the requested id: the amount
  \<open>RemoveItem\<close> can take from them.
\<close>

definition matching_total :: "uint32 \<Rightarrow> 'x LootItem_scheme list \<Rightarrow> nat" where
  "matching_total iid xs = sum_list (map (\<lambda>e. unat (count e)) (filter (\<lambda>e. itemid e = iid) xs))"


section \<open>Timed events (ALEEventMgr.cpp)\<close>

datatype LuaEventState = LUAEVENT_STATE_RUN | LUAEVENT_STATE_ABORT | LUAEVENT_STATE_ERASE

text \<open>
  Modelled from the spec: \<open>LuaEvent\<close> is declared in \<open>ALEEventMgr.h\<close>, which is not among
  the sources. Its fields are the spec's TimedEvent (section 3): the handle \<open>funcRef\<close>,
  the delay bounds (\<open>min\<close> and \<open>max\<close> in the code, here \<open>min_delay\<close> and \<open>max_delay\<close>),
  \<open>repeats\<close>, \<open>state\<close> and the computed \<open>delay\<close>. A new event is in state RUN.
\<close>

record LuaEvent =
  min_delay :: uint32
  max_delay :: uint32
  delay :: uint32
  repeats :: uint32
  funcRef :: int
  state :: LuaEventState

text \<open>
  Modelled from the spec: the constructor \<open>LuaEvent(funcRef, min, max, repeats)\<close> (same
  header). The event starts in state RUN; its delay is computed by \<open>AddEvent\<close>.
\<close>

definition LuaEvent_new :: "int \<Rightarrow> uint32 \<Rightarrow> uint32 \<Rightarrow> uint32 \<Rightarrow> LuaEvent" where
  "LuaEvent_new f mn mx r =
     \<lparr>min_delay = mn, max_delay = mx, delay = 0, repeats = r, funcRef = f,
      state = LUAEVENT_STATE_RUN\<rparr>"

text \<open>
  Modelled from the spec: \<open>LuaEvent::SetState\<close> (same header). Section 4.2 gives the
  transitions RUN to ABORT, RUN to ERASE and ABORT to ERASE, and says of an ERASE event
  that it will be removed on its next drain pass without releasing its reference: no
  transition leaves ERASE.
\<close>

definition LuaEvent_SetState :: "LuaEventState \<Rightarrow> LuaEvent \<Rightarrow> LuaEvent" where
  "LuaEvent_SetState st e = (if state e \<noteq> LUAEVENT_STATE_ERASE then e\<lparr>state := st\<rparr> else e)"

text \<open>
  What the host observes: the calls of \<open>ALE::OnTimedEvent(funcRef, delay, calls, obj)\<close>
  (the owner \<open>obj\<close> is fixed per processor and left out) and of \<open>luaL_unref\<close> on a
  function reference.
\<close>

datatype host_call = OnTimedEvent_call int uint32 uint32 | luaL_unref_call int

text \<open>
  The state the processor works on. The \<open>LuaEvent\<close> objects live in \<open>heap\<close>, addressed
  by the pointers that \<open>eventList\<close> (a \<open>std::multimap<uint64, LuaEvent*>\<close>, kept as a
  list sorted by key) and \<open>eventMap\<close> (an \<open>unordered_map<int, LuaEvent*>\<close>) share.
  \<open>new\<close> takes the address \<open>next_addr\<close>; \<open>delete\<close> removes the object, and a read
  through a pointer to a deleted object is a fault (\<open>None\<close>). \<open>m_time\<close> has the width of
  the keys of \<open>eventList\<close>, 64 bits; delays and \<open>diff\<close> are \<open>uint32\<close>. \<open>draws\<close> counts the
  random draws made, \<open>calls\<close> is the sequence of host calls so far.
\<close>

record processor =
  m_time :: uint64
  eventList :: "(uint64 \<times> nat) list"
  eventMap :: "int \<rightharpoonup> nat"
  heap :: "nat \<rightharpoonup> LuaEvent"
  next_addr :: nat
  draws :: nat
  calls :: "host_call list"

text \<open>The constructor: \<open>m_time(0)\<close> and empty containers.\<close>

definition ALEEventProcessor :: processor where
  "ALEEventProcessor =
     \<lparr>m_time = 0, eventList = [], eventMap = Map.empty, heap = Map.empty, next_addr = 0,
      draws = 0, calls = []\<rparr>"

text \<open>
  The script interface reaches the processor, from inside a callback, through
  \<open>AddEvent(funcRef, min, max, repeats)\<close>, \<open>SetState(eventId, state)\<close> and
  \<open>SetStates(state)\<close>.
\<close>

datatype op = Op_AddEvent int uint32 uint32 uint32 | Op_SetState int LuaEventState
  | Op_SetStates LuaEventState

text \<open>
  The host: \<open>urand h n lo hi\<close> is the \<open>n\<close>-th draw of the core's random number function,
  \<open>IsInitialized\<close> and \<open>HasLuaState\<close> are \<open>ALE::IsInitialized()\<close> and
  \<open>(*E)->HasLuaState()\<close>, and \<open>script h funcRef delay calls s\<close> is what the Lua function
  behind \<open>funcRef\<close> does to this processor when \<open>OnTimedEvent\<close> runs it in state \<open>s\<close>.
\<close>

record host =
  urand :: "nat \<Rightarrow> uint32 \<Rightarrow> uint32 \<Rightarrow> uint32"
  IsInitialized :: bool
  HasLuaState :: bool
  script :: "int \<Rightarrow> uint32 \<Rightarrow> uint32 \<Rightarrow> processor \<Rightarrow> op list"

text \<open>
  Modelled from the spec: \<open>LuaEvent::GenerateDelay\<close> (declared in \<open>ALEEventMgr.h\<close>, not
  among the sources) draws \<open>delay\<close> from \<open>[min, max]\<close> (section 4.1); the draw is the
  host's.
\<close>

definition GenerateDelay :: "host \<Rightarrow> nat \<Rightarrow> LuaEvent \<Rightarrow> LuaEvent" where
  "GenerateDelay h n e = e\<lparr>delay := urand h n (min_delay e) (max_delay e)\<rparr>"

text \<open>\<open>std::multimap::insert\<close>: the new pair goes after the pairs with an equal key.\<close>

fun multimap_insert :: "uint64 \<Rightarrow> nat \<Rightarrow> (uint64 \<times> nat) list \<Rightarrow> (uint64 \<times> nat) list" where
  "multimap_insert k v [] = [(k, v)]"
| "multimap_insert k v ((k', v') # rest) =
     (if k' \<le> k then (k', v') # multimap_insert k v rest else (k, v) # (k', v') # rest)"

text \<open>
  \<open>AddEvent(LuaEvent*)\<close>: a new delay is drawn, the event is inserted at
  \<open>m_time + delay\<close> (64-bit addition) and the map entry of its \<open>funcRef\<close> is overwritten.
\<close>

definition AddEvent_ptr :: "host \<Rightarrow> nat \<Rightarrow> processor \<Rightarrow> processor option" where
  "AddEvent_ptr h a s =
     (case heap s a of
        None \<Rightarrow> None
      | Some luaEvent \<Rightarrow>
          let ev = GenerateDelay h (draws s) luaEvent in
          Some (s\<lparr>heap := (heap s)(a \<mapsto> ev),
                  draws := Suc (draws s),
                  eventList := multimap_insert (m_time s + ucast (delay ev)) a (eventList s),
                  eventMap := (eventMap s)(funcRef ev \<mapsto> a)\<rparr>))"

text \<open>\<open>AddEvent(funcRef, min, max, repeats)\<close>: \<open>AddEvent(new LuaEvent(...))\<close>.\<close>

definition AddEvent :: "host \<Rightarrow> int \<Rightarrow> uint32 \<Rightarrow> uint32 \<Rightarrow> uint32 \<Rightarrow> processor \<Rightarrow> processor option" where
  "AddEvent h f mn mx r s =
     AddEvent_ptr h (next_addr s)
       (s\<lparr>heap := (heap s)(next_addr s \<mapsto> LuaEvent_new f mn mx r),
          next_addr := Suc (next_addr s)\<rparr>)"

text \<open>\<open>SetState(eventId, state)\<close>.\<close>

definition SetState :: "int \<Rightarrow> LuaEventState \<Rightarrow> processor \<Rightarrow> processor option" where
  "SetState eventId st s =
     (case (case eventMap s eventId of
              None \<Rightarrow> Some s
            | Some a \<Rightarrow>
                (case heap s a of
                   None \<Rightarrow> None
                 | Some luaEvent \<Rightarrow> Some (s\<lparr>heap := (heap s)(a \<mapsto> LuaEvent_SetState st luaEvent)\<rparr>))) of
        None \<Rightarrow> None
      | Some s' \<Rightarrow>
          Some (if st = LUAEVENT_STATE_ERASE
                then s'\<lparr>eventMap := (eventMap s')(eventId := None)\<rparr> else s'))"

text \<open>\<open>SetStates(state)\<close>: the loop over \<open>eventList\<close>, then the map is cleared on ERASE.\<close>

fun SetStates_loop :: "LuaEventState \<Rightarrow> (uint64 \<times> nat) list \<Rightarrow> (nat \<rightharpoonup> LuaEvent) \<Rightarrow> (nat \<rightharpoonup> LuaEvent) option" where
  "SetStates_loop st [] hp = Some hp"
| "SetStates_loop st ((k, a) # rest) hp =
     (case hp a of
        None \<Rightarrow> None
      | Some luaEvent \<Rightarrow> SetStates_loop st rest (hp(a \<mapsto> LuaEvent_SetState st luaEvent)))"

definition SetStates :: "LuaEventState \<Rightarrow> processor \<Rightarrow> processor option" where
  "SetStates st s =
     (case SetStates_loop st (eventList s) (heap s) of
        None \<Rightarrow> None
      | Some hp \<Rightarrow>
          Some (s\<lparr>heap := hp,
                  eventMap := (if st = LUAEVENT_STATE_ERASE then Map.empty else eventMap s)\<rparr>))"

text \<open>
  \<open>RemoveEvent(LuaEvent*)\<close>: the reference is released unless the event is in state
  ERASE or the host is gone; the event is deleted.
\<close>

definition RemoveEvent :: "host \<Rightarrow> nat \<Rightarrow> processor \<Rightarrow> processor option" where
  "RemoveEvent h a s =
     (case heap s a of
        None \<Rightarrow> None
      | Some luaEvent \<Rightarrow>
          Some (s\<lparr>calls := calls s @
                    (if state luaEvent \<noteq> LUAEVENT_STATE_ERASE \<and> IsInitialized h \<and> HasLuaState h
                     then [luaL_unref_call (funcRef luaEvent)] else []),
                  heap := (heap s)(a := None)\<rparr>))"

text \<open>The operations a callback performs, in order.\<close>

fun apply_op :: "host \<Rightarrow> op \<Rightarrow> processor \<Rightarrow> processor option" where
  "apply_op h (Op_AddEvent f mn mx r) s = AddEvent h f mn mx r s"
| "apply_op h (Op_SetState eventId st) s = SetState eventId st s"
| "apply_op h (Op_SetStates st) s = SetStates st s"

fun apply_ops :: "host \<Rightarrow> op list \<Rightarrow> processor \<Rightarrow> processor option" where
  "apply_ops h [] s = Some s"
| "apply_ops h (x # xs) s =
     (case apply_op h x s of None \<Rightarrow> None | Some s' \<Rightarrow> apply_ops h xs s')"

text \<open>
  \<open>(*E)->OnTimedEvent(funcRef, delay, calls, obj)\<close>: the call is recorded and the Lua
  function runs, with whatever it does to the processor.
\<close>

definition OnTimedEvent :: "host \<Rightarrow> int \<Rightarrow> uint32 \<Rightarrow> uint32 \<Rightarrow> processor \<Rightarrow> processor option" where
  "OnTimedEvent h f d c s =
     (let s' = s\<lparr>calls := calls s @ [OnTimedEvent_call f d c]\<rparr>
      in apply_ops h (script h f d c s') s')"

text \<open>
  One pass through the body of the \<open>for\<close> loop of \<open>Update\<close>, for the first entry of
  \<open>eventList\<close>. The third argument of \<open>OnTimedEvent\<close> is
  \<open>repeats ? repeats-- : repeats\<close>: the value before the decrement, which is done before
  the call.
\<close>

definition Update_body :: "host \<Rightarrow> processor \<Rightarrow> processor option" where
  "Update_body h s =
     (case eventList s of
        [] \<Rightarrow> None
      | (k, a) # rest \<Rightarrow>
          (case heap s a of
             None \<Rightarrow> None
           | Some luaEvent \<Rightarrow>
               let s1 = s\<lparr>eventList := rest\<rparr>;
                   s2 = (if state luaEvent \<noteq> LUAEVENT_STATE_ERASE
                         then s1\<lparr>eventMap := (eventMap s1)(funcRef luaEvent := None)\<rparr> else s1)
               in
               if state luaEvent = LUAEVENT_STATE_RUN then
                 (let d = delay luaEvent; remove = (repeats luaEvent = 1) in
                  case (if \<not> remove then AddEvent_ptr h a s2 else Some s2) of
                    None \<Rightarrow> None
                  | Some s3 \<Rightarrow>
                      (case heap s3 a of
                         None \<Rightarrow> None
                       | Some ev \<Rightarrow>
                           let c = repeats ev;
                               s4 = (if repeats ev \<noteq> 0
                                     then s3\<lparr>heap := (heap s3)(a \<mapsto> ev\<lparr>repeats := repeats ev - 1\<rparr>)\<rparr>
                                     else s3)
                           in
                           (case OnTimedEvent h (funcRef ev) d c s4 of
                              None \<Rightarrow> None
                            | Some s5 \<Rightarrow> if \<not> remove then Some s5 else RemoveEvent h a s5)))
               else RemoveEvent h a s2))"

text \<open>
  The result of a call that may not return: it returns a state, it faults on a dangling
  pointer, or the loop is still running when the fuel is used up.
\<close>

datatype 'a outcome = Returns 'a | Faults | Still_running

text \<open>The loop condition of \<open>Update\<close>: \<open>it != eventList.end() && it->first <= m_time\<close>.\<close>

definition Update_cond :: "processor \<Rightarrow> bool" where
  "Update_cond s = (case eventList s of [] \<Rightarrow> False | (k, a) # rest \<Rightarrow> k \<le> m_time s)"

fun Update_loop :: "host \<Rightarrow> nat \<Rightarrow> processor \<Rightarrow> processor outcome" where
  "Update_loop h 0 s = (if Update_cond s then Still_running else Returns s)"
| "Update_loop h (Suc n) s =
     (if Update_cond s
      then (case Update_body h s of None \<Rightarrow> Faults | Some s' \<Rightarrow> Update_loop h n s')
      else Returns s)"

text \<open>\<open>Update(diff)\<close>, run for at most \<open>fuel\<close> passes of its loop.\<close>

definition Update :: "host \<Rightarrow> nat \<Rightarrow> uint32 \<Rightarrow> processor \<Rightarrow> processor outcome" where
  "Update h fuel diff s = Update_loop h fuel (s\<lparr>m_time := m_time s + ucast diff\<rparr>)"

section \<open>Notions used to state the properties of the event processor\<close>

text \<open>
  An entry of \<open>eventList\<close> is due at time \<open>t\<close> when its key is at most \<open>t\<close>.
\<close>

definition due_at :: "uint64 \<Rightarrow> uint64 \<times> nat \<Rightarrow> bool" where
  "due_at t x = (fst x \<le> t)"

text \<open>
  The shape every reachable state has: \<open>eventList\<close> is sorted by key and holds each
  pointer once, every pointer in it is to a live object, \<open>new\<close> has not yet handed out
  \<open>next_addr\<close> or anything above it, and an entry of \<open>eventMap\<close> points to an event of
  \<open>eventList\<close> that carries that handle and is not in state ERASE.
\<close>

definition well_formed :: "processor \<Rightarrow> bool" where
  "well_formed s \<longleftrightarrow>
     sorted (map fst (eventList s)) \<and>
     distinct (map snd (eventList s)) \<and>
     snd ` set (eventList s) \<subseteq> dom (heap s) \<and>
     dom (heap s) \<subseteq> {..< next_addr s} \<and>
     (\<forall>f a. eventMap s f = Some a \<longrightarrow>
        a \<in> snd ` set (eventList s) \<and>
        (\<exists>e. heap s a = Some e \<and> funcRef e = f \<and> state e \<noteq> LUAEVENT_STATE_ERASE))"

text \<open>
  The effect of \<open>repeats ? repeats-- : repeats\<close> on the event.
\<close>

definition dec_repeats :: "LuaEvent \<Rightarrow> LuaEvent" where
  "dec_repeats e = (if repeats e \<noteq> 0 then e\<lparr>repeats := repeats e - 1\<rparr> else e)"

text \<open>
  The state after the loop body has erased the first entry from \<open>eventList\<close> and,
  unless the event \<open>e\<close> is in state ERASE, its handle from \<open>eventMap\<close>.
\<close>

definition popped :: "processor \<Rightarrow> (uint64 \<times> nat) list \<Rightarrow> LuaEvent \<Rightarrow> processor" where
  "popped s rest e =
     s\<lparr>eventList := rest,
       eventMap := (if state e \<noteq> LUAEVENT_STATE_ERASE then (eventMap s)(funcRef e := None)
                    else eventMap s)\<rparr>"

text \<open>
  The state in which \<open>OnTimedEvent\<close> is called for a RUN event \<open>e\<close> at \<open>a\<close> that is
  not on its last repetition: popped, added again by \<open>AddEvent(luaEvent)\<close>, \<open>repeats\<close>
  decremented.
\<close>

definition rescheduled :: "host \<Rightarrow> processor \<Rightarrow> (uint64 \<times> nat) list \<Rightarrow> nat \<Rightarrow> LuaEvent \<Rightarrow> processor" where
  "rescheduled h s rest a e =
     (let d = urand h (draws s) (min_delay e) (max_delay e) in
      s\<lparr>eventList := multimap_insert (m_time s + ucast d) a rest,
        eventMap := (eventMap s)(funcRef e \<mapsto> a),
        heap := (heap s)(a \<mapsto> dec_repeats (e\<lparr>delay := d\<rparr>)),
        draws := Suc (draws s)\<rparr>)"

text \<open>
  Every scheduled event has delay bounds \<open>1 \<le> min \<le> max\<close>.
\<close>

definition delays_ok :: "processor \<Rightarrow> bool" where
  "delays_ok s \<longleftrightarrow>
     (\<forall>(k, a) \<in> set (eventList s). \<forall>e. heap s a = Some e \<longrightarrow>
        1 \<le> min_delay e \<and> min_delay e \<le> max_delay e)"

text \<open>
  The clock is far enough from \<open>2^64\<close> for \<open>m_time + delay\<close> not to wrap.
\<close>

definition time_ok :: "processor \<Rightarrow> bool" where
  "time_ok s \<longleftrightarrow> unat (m_time s) + 2 ^ 32 \<le> (2 :: nat) ^ 64"

text \<open>
  The states in which a drain is shown to return.
\<close>

definition steady :: "processor \<Rightarrow> bool" where
  "steady s \<longleftrightarrow> well_formed s \<and> delays_ok s \<and> time_ok s"




text \<open>
  \<open>kept t L L'\<close>: going from \<open>L\<close> to \<open>L'\<close> leaves the entries due at \<open>t\<close> as they are, in
  number and order, and drops none of the others.
\<close>

definition kept :: "uint64 \<Rightarrow> (uint64 \<times> nat) list \<Rightarrow> (uint64 \<times> nat) list \<Rightarrow> bool" where
  "kept t L L' \<longleftrightarrow>
     takeWhile (due_at t) L' = takeWhile (due_at t) L \<and>
     (\<forall>x \<in> set L. \<not> due_at t x \<longrightarrow> x \<in> set L')"

text \<open>
  The event at \<open>a\<close> has been taken out of both containers and not yet deleted.
\<close>

definition in_flight :: "nat \<Rightarrow> LuaEvent \<Rightarrow> processor \<Rightarrow> bool" where
  "in_flight a e s \<longleftrightarrow>
     heap s a = Some e \<and> a \<notin> snd ` set (eventList s) \<and> (\<forall>f. eventMap s f \<noteq> Some a)"


text \<open>
  The state after \<open>n\<close> passes of the loop body of \<open>Update\<close>.
\<close>

fun Update_passes :: "host \<Rightarrow> nat \<Rightarrow> processor \<Rightarrow> processor option" where
  "Update_passes h 0 s = Some s"
| "Update_passes h (Suc n) s =
     (case Update_body h s of None \<Rightarrow> None | Some s' \<Rightarrow> Update_passes h n s')"


text \<open>
  The first statement of \<open>Update\<close>: \<open>m_time += diff\<close>.
\<close>

definition advance :: "uint32 \<Rightarrow> processor \<Rightarrow> processor" where
  "advance diff s = s\<lparr>m_time := m_time s + ucast diff\<rparr>"

text \<open>
  A host for the examples: fixed delays (the lower bound), a live interpreter, and a
  script in which the callback of handle 3 cancels its own handle.
\<close>

definition example_host :: host where
  "example_host =
     \<lparr>urand = (\<lambda>n lo hi. lo), IsInitialized = True, HasLuaState = True,
      script = (\<lambda>f d c s. if f = 3 then [Op_SetState 3 LUAEVENT_STATE_ABORT] else [])\<rparr>"

text \<open>
  Every event of \<open>eventList\<close> that is not in state ERASE is the one \<open>eventMap\<close> holds for
  its handle.
\<close>

definition listed_mapped :: "processor \<Rightarrow> bool" where
  "listed_mapped s \<longleftrightarrow>
     (\<forall>(k, a) \<in> set (eventList s). \<forall>e. heap s a = Some e \<longrightarrow>
        state e \<noteq> LUAEVENT_STATE_ERASE \<longrightarrow> eventMap s (funcRef e) = Some a)"

text \<open>
  The invariant of the spec (section 3): an event of \<open>eventList\<close> that is not in state
  ERASE is in \<open>eventMap\<close> under its handle, and an event of \<open>eventMap\<close> is in \<open>eventList\<close>.
\<close>

definition paired :: "processor \<Rightarrow> bool" where
  "paired s \<longleftrightarrow>
     listed_mapped s \<and> (\<forall>f a. eventMap s f = Some a \<longrightarrow> a \<in> snd ` set (eventList s))"

text \<open>
  The states the operations keep: well-formed, and every event of \<open>eventList\<close> that is
  not in state ERASE is the one in \<open>eventMap\<close>.
\<close>

definition consistent :: "processor \<Rightarrow> bool" where
  "consistent s \<longleftrightarrow> well_formed s \<and> listed_mapped s"

text \<open>
  The operations of a callback never add a handle that \<open>eventMap\<close> holds at that moment.
\<close>

fun adds_fresh :: "host \<Rightarrow> op list \<Rightarrow> processor \<Rightarrow> bool" where
  "adds_fresh h [] s = True"
| "adds_fresh h (x # xs) s =
     ((case x of Op_AddEvent f mn mx r \<Rightarrow> eventMap s f = None | _ \<Rightarrow> True) \<and>
      (case apply_op h x s of None \<Rightarrow> True | Some s' \<Rightarrow> adds_fresh h xs s'))"

definition script_adds_fresh :: "host \<Rightarrow> bool" where
  "script_adds_fresh h \<longleftrightarrow> (\<forall>f d c s. adds_fresh h (script h f d c s) s)"


text \<open>The handle a host call is about, and the calls of a trace about one handle.\<close>

fun call_ref :: "host_call \<Rightarrow> int" where
  "call_ref (OnTimedEvent_call f d c) = f"
| "call_ref (luaL_unref_call f) = f"

definition calls_of :: "int \<Rightarrow> host_call list \<Rightarrow> host_call list" where
  "calls_of f cs = filter (\<lambda>c. call_ref c = f) cs"

text \<open>No event of \<open>eventList\<close> carries the handle \<open>f\<close>.\<close>

definition no_handle :: "int \<Rightarrow> processor \<Rightarrow> bool" where
  "no_handle f s \<longleftrightarrow>
     (\<forall>(k, b) \<in> set (eventList s). \<forall>e. heap s b = Some e \<longrightarrow> funcRef e \<noteq> f)"

text \<open>
  The event \<open>e\<close> at address \<open>a\<close> is scheduled at key \<open>k\<close>, carries the handle \<open>f\<close>, and
  is the only event of \<open>eventList\<close> that does.
\<close>

definition tracked :: "int \<Rightarrow> nat \<Rightarrow> uint64 \<Rightarrow> LuaEvent \<Rightarrow> processor \<Rightarrow> bool" where
  "tracked f a k e s \<longleftrightarrow>
     (k, a) \<in> set (eventList s) \<and> heap s a = Some e \<and> funcRef e = f \<and>
     (\<forall>(k', b) \<in> set (eventList s). \<forall>e'. heap s b = Some e' \<longrightarrow> funcRef e' = f \<longrightarrow> b = a)"




section \<open>Loot: proofs\<close>

subsection \<open>AddItem\<close>

lemma AddItem_loop_None:
  "AddItem_loop iid mn xs = None \<longleftrightarrow> (\<forall>e \<in> set xs. \<not> (itemid e = iid \<and> count e < 255))"
  by (induction xs) auto

lemma AddItem_loop_Some:
  "\<exists>e \<in> set xs. itemid e = iid \<and> count e < 255 \<Longrightarrow>
   \<exists>i < length xs. itemid (xs ! i) = iid \<and> count (xs ! i) < 255 \<and>
      (\<forall>j < i. \<not> (itemid (xs ! j) = iid \<and> count (xs ! j) < 255)) \<and>
      AddItem_loop iid mn xs = Some (xs[i := (xs ! i)\<lparr>count := count (xs ! i) + mn\<rparr>])"
proof (induction xs)
  case Nil
  then show ?case by simp
next
  case (Cons x xs)
  show ?case
  proof (cases "itemid x = iid \<and> count x < 255")
    case True
    then show ?thesis by (intro exI[of _ 0]) simp
  next
    case False
    with Cons.prems have "\<exists>e \<in> set xs. itemid e = iid \<and> count e < 255" by auto
    from Cons.IH[OF this] obtain i where i: "i < length xs" "itemid (xs ! i) = iid" "count (xs ! i) < 255"
      "\<forall>j < i. \<not> (itemid (xs ! j) = iid \<and> count (xs ! j) < 255)"
      "AddItem_loop iid mn xs = Some (xs[i := (xs ! i)\<lparr>count := count (xs ! i) + mn\<rparr>])" by blast
    have "\<forall>j < Suc i. \<not> (itemid ((x # xs) ! j) = iid \<and> count ((x # xs) ! j) < 255)"
      using False i(4) by (auto simp: less_Suc_eq_0_disj)
    moreover have "AddItem_loop iid mn (x # xs) =
        Some ((x # xs)[Suc i := ((x # xs) ! Suc i)\<lparr>count := count ((x # xs) ! Suc i) + mn\<rparr>])"
      using False i(5) by auto
    ultimately show ?thesis using i(1-3) by (intro exI[of _ "Suc i"]) simp
  qed
qed


text \<open>
  Claim C9. When some entry has the requested id and a count below 255, \<open>AddItem\<close> adds
  \<open>min_count\<close> to the count of the first such entry, as an 8-bit addition (modulo 256),
  changes nothing else (the list keeps its length, the entry its other fields, and the
  result does not depend on \<open>max_count\<close>, \<open>chance\<close>, \<open>loot_mode\<close> or \<open>needs_quest\<close>)
  and does not call \<open>Loot::AddItem\<close>. When no entry qualifies, the result is that of
  \<open>Loot::AddItem\<close> on the new \<open>LootStoreItem\<close>.
\<close>

theorem AddItem_existing_entry:
  "if (\<exists>e \<in> set (items loot). itemid e = iid \<and> count e < 255)
   then (\<exists>i < length (items loot).
      itemid (items loot ! i) = iid \<and> count (items loot ! i) < 255 \<and>
      (\<forall>j < i. \<not> (itemid (items loot ! j) = iid \<and> count (items loot ! j) < 255)) \<and>
      AddItem Loot_AddItem iid min_count max_count chance loot_mode needs_quest loot =
        loot\<lparr>items := (items loot)[i := (items loot ! i)\<lparr>count := count (items loot ! i) + min_count\<rparr>]\<rparr> \<and>
      unat (count (items (AddItem Loot_AddItem iid min_count max_count chance loot_mode needs_quest loot) ! i)) =
        (unat (count (items loot ! i)) + unat min_count) mod 256 \<and>
      length (items (AddItem Loot_AddItem iid min_count max_count chance loot_mode needs_quest loot)) =
        length (items loot))
   else AddItem Loot_AddItem iid min_count max_count chance loot_mode needs_quest loot =
      Loot_AddItem \<lparr>ls_itemid = iid, ls_reference = 0, ls_chance = chance, ls_needs_quest = needs_quest,
             ls_lootmode = loot_mode, ls_groupid = 0, ls_mincount = min_count,
             ls_maxcount = max_count\<rparr> loot"
proof (cases "\<exists>e \<in> set (items loot). itemid e = iid \<and> count e < 255")
  case True
  from AddItem_loop_Some[OF True, of min_count] obtain i where i: "i < length (items loot)"
    "itemid (items loot ! i) = iid" "count (items loot ! i) < 255"
    "\<forall>j < i. \<not> (itemid (items loot ! j) = iid \<and> count (items loot ! j) < 255)"
    "AddItem_loop iid min_count (items loot) =
       Some ((items loot)[i := (items loot ! i)\<lparr>count := count (items loot ! i) + min_count\<rparr>])"
    by blast
  have u: "unat (count (items loot ! i) + min_count) = (unat (count (items loot ! i)) + unat min_count) mod 256"
    by (simp add: unat_word_ariths)
  have eq: "AddItem Loot_AddItem iid min_count max_count chance loot_mode needs_quest loot =
        loot\<lparr>items := (items loot)[i := (items loot ! i)\<lparr>count := count (items loot ! i) + min_count\<rparr>]\<rparr>"
    by (simp add: AddItem_def i(5))
  have "\<exists>i < length (items loot).
      itemid (items loot ! i) = iid \<and> count (items loot ! i) < 255 \<and>
      (\<forall>j < i. \<not> (itemid (items loot ! j) = iid \<and> count (items loot ! j) < 255)) \<and>
      AddItem Loot_AddItem iid min_count max_count chance loot_mode needs_quest loot =
        loot\<lparr>items := (items loot)[i := (items loot ! i)\<lparr>count := count (items loot ! i) + min_count\<rparr>]\<rparr> \<and>
      unat (count (items (AddItem Loot_AddItem iid min_count max_count chance loot_mode needs_quest loot) ! i)) =
        (unat (count (items loot ! i)) + unat min_count) mod 256 \<and>
      length (items (AddItem Loot_AddItem iid min_count max_count chance loot_mode needs_quest loot)) =
        length (items loot)"
    using i(1-4) u by (intro exI[of _ i]) (simp add: eq)
  with True show ?thesis by (simp only: if_True)
next
  case False
  then have "AddItem_loop iid min_count (items loot) = None"
    by (simp add: AddItem_loop_None)
  then have "AddItem Loot_AddItem iid min_count max_count chance loot_mode needs_quest loot =
      Loot_AddItem \<lparr>ls_itemid = iid, ls_reference = 0, ls_chance = chance, ls_needs_quest = needs_quest,
             ls_lootmode = loot_mode, ls_groupid = 0, ls_mincount = min_count,
             ls_maxcount = max_count\<rparr> loot"
    by (simp add: AddItem_def)
  then show ?thesis by (simp only: False if_False)
qed

theorem AddItem_existing_entry_witness:
  "AddItem (\<lambda>(st :: unit LootStoreItem) l. l) 5 10 1 () 1 False
     \<lparr>items = [\<lparr>itemid = 7, count = 1\<rparr>, \<lparr>itemid = 5, count = 255\<rparr>, \<lparr>itemid = 5, count = 250\<rparr>]\<rparr> =
   \<lparr>items = [\<lparr>itemid = 7, count = 1\<rparr>, \<lparr>itemid = 5, count = 255\<rparr>, \<lparr>itemid = 5, count = 4\<rparr>]\<rparr>"
  using AddItem_existing_entry [of "\<lparr>items = [\<lparr>itemid = 7, count = 1\<rparr>, \<lparr>itemid = 5, count = 255\<rparr>, \<lparr>itemid = 5, count = 250\<rparr>]\<rparr>"
      5 "\<lambda>(st :: unit LootStoreItem) l. l" 10 1 "()" 1 False]
  by (auto simp: less_Suc_eq numeral_3_eq_3)

subsection \<open>RemoveItem\<close>

lemma matching_total_simps [simp]:
  "matching_total iid [] = 0"
  "matching_total iid (x # xs) = (if itemid x = iid then unat (count x) else 0) + matching_total iid xs"
  by (simp_all add: matching_total_def)

lemma unat_ucast_count [simp]: "unat (ucast (c :: uint8) :: uint32) = unat c"
proof -
  have "unat c < 2 ^ 32" using unsigned_less[of c, where 'a=nat] by simp
  then show ?thesis by (simp add: unsigned_ucast_eq take_bit_nat_eq_self)
qed

lemma unat_count_sub:
  assumes "unat n < unat (c :: uint8)"
  shows "unat (ucast ((ucast c :: uint32) - n) :: uint8) = unat c - unat n"
proof -
  have c: "unat c < 256" using unsigned_less[of c, where 'a=nat] by simp
  have "n \<le> ucast c" using assms by (simp add: word_le_nat_alt)
  then have "unat ((ucast c :: uint32) - n) = unat c - unat n"
    by (simp add: unat_sub)
  moreover have "unat c - unat n < 256" using c by simp
  ultimately show ?thesis
    by (simp add: unsigned_ucast_eq take_bit_nat_eq_self)
qed

lemma count_gt_iff: "(ucast (c :: uint8) :: uint32) > n \<longleftrightarrow> unat c > unat n"
  by (simp add: word_less_nat_alt)

lemma RemoveItem_loop_others:
  "filter (\<lambda>e. itemid e \<noteq> iid) (RemoveItem_loop iid b c xs) = filter (\<lambda>e. itemid e \<noteq> iid) xs"
  by (induction xs arbitrary: c) auto

lemma RemoveItem_loop_unspecified:
  "RemoveItem_loop iid False c xs = filter (\<lambda>e. itemid e \<noteq> iid) xs"
  by (induction xs arbitrary: c) auto

lemma RemoveItem_loop_all:
  "matching_total iid xs \<le> unat c \<Longrightarrow>
   RemoveItem_loop iid True c xs = filter (\<lambda>e. itemid e \<noteq> iid) xs"
proof (induction xs arbitrary: c)
  case Nil
  then show ?case by simp
next
  case (Cons x xs)
  show ?case
  proof (cases "itemid x = iid")
    case True
    with Cons.prems have le: "unat (count x) \<le> unat c" and rest: "matching_total iid xs \<le> unat c - unat (count x)"
      by auto
    have "unat (c - ucast (count x)) = unat c - unat (count x)"
      using le by (simp add: unat_sub word_le_nat_alt)
    with rest Cons.IH[of "c - ucast (count x)"] le True show ?thesis
      by (simp add: count_gt_iff)
  next
    case False
    with Cons show ?thesis by simp
  qed
qed

lemma RemoveItem_loop_partial:
  "unat c < matching_total iid xs \<Longrightarrow>
   \<exists>pre e post. xs = pre @ e # post \<and> itemid e = iid \<and> matching_total iid pre \<le> unat c \<and>
      unat c - matching_total iid pre < unat (count e) \<and>
      RemoveItem_loop iid True c xs =
        filter (\<lambda>e. itemid e \<noteq> iid) pre @
        e\<lparr>count := ucast (ucast (count e) - (c - of_nat (matching_total iid pre)))\<rparr> # post \<and>
      unat (ucast (ucast (count e) - (c - of_nat (matching_total iid pre)) :: uint32) :: uint8) =
        unat (count e) - (unat c - matching_total iid pre)"
proof (induction xs arbitrary: c)
  case Nil
  then show ?case by simp
next
  case (Cons x xs)
  show ?case
  proof (cases "itemid x = iid")
    case False
    with Cons.prems have "unat c < matching_total iid xs" by simp
    from Cons.IH[OF this] obtain pre e post where p: "xs = pre @ e # post" "itemid e = iid"
      "matching_total iid pre \<le> unat c" "unat c - matching_total iid pre < unat (count e)"
      "RemoveItem_loop iid True c xs =
        filter (\<lambda>e. itemid e \<noteq> iid) pre @
        e\<lparr>count := ucast (ucast (count e) - (c - of_nat (matching_total iid pre)))\<rparr> # post"
      "unat (ucast (ucast (count e) - (c - of_nat (matching_total iid pre)) :: uint32) :: uint8) =
        unat (count e) - (unat c - matching_total iid pre)" by blast
    show ?thesis
      apply (rule exI[of _ "x # pre"], rule exI[of _ e], rule exI[of _ post])
      using p False by simp
  next
    case True
    show ?thesis
    proof (cases "unat (count x) > unat c")
      case gt: True
      show ?thesis
        apply (rule exI[of _ "[]"], rule exI[of _ x], rule exI[of _ xs])
        using True gt by (simp add: count_gt_iff unat_count_sub)
    next
      case le: False
      then have le': "unat (count x) \<le> unat c" by simp
      have u: "unat (c - ucast (count x)) = unat c - unat (count x)"
        using le' by (simp add: unat_sub word_le_nat_alt)
      with Cons.prems True le' have "unat (c - ucast (count x)) < matching_total iid xs" by simp
      from Cons.IH[OF this] obtain pre e post where p: "xs = pre @ e # post" "itemid e = iid"
        "matching_total iid pre \<le> unat (c - ucast (count x))"
        "unat (c - ucast (count x)) - matching_total iid pre < unat (count e)"
        "RemoveItem_loop iid True (c - ucast (count x)) xs =
          filter (\<lambda>e. itemid e \<noteq> iid) pre @
          e\<lparr>count := ucast (ucast (count e) - (c - ucast (count x) - of_nat (matching_total iid pre)))\<rparr> # post"
        "unat (ucast (ucast (count e) - (c - ucast (count x) - of_nat (matching_total iid pre)) :: uint32) :: uint8) =
          unat (count e) - (unat (c - ucast (count x)) - matching_total iid pre)" by blast
      have w: "c - ucast (count x) - of_nat (matching_total iid pre) =
               c - (of_nat (matching_total iid (x # pre)) :: uint32)"
        using True by simp
      show ?thesis
        apply (rule exI[of _ "x # pre"], rule exI[of _ e], rule exI[of _ post])
        using p True le' u unfolding w by (simp add: count_gt_iff)
    qed
  qed
qed

text \<open>
  Claim C10. Entries with another id are never touched. Without a count, every entry with
  the requested id is erased. With a count, entries with the id are erased in list order
  while their count fits into what is left to remove; the first one whose count exceeds
  the remainder keeps its place with its count reduced by the remainder, and everything
  after it is left as it was. When the counts of all matching entries fit, all are erased.
\<close>

theorem RemoveItem_effect:
  "filter (\<lambda>e. itemid e \<noteq> iid) (items (RemoveItem iid isCountSpecified arg loot)) =
     filter (\<lambda>e. itemid e \<noteq> iid) (items loot) \<and>
   (if \<not> isCountSpecified
    then items (RemoveItem iid isCountSpecified arg loot) = filter (\<lambda>e. itemid e \<noteq> iid) (items loot)
    else if matching_total iid (items loot) \<le> unat arg
    then items (RemoveItem iid isCountSpecified arg loot) = filter (\<lambda>e. itemid e \<noteq> iid) (items loot)
    else (\<exists>pre e post. items loot = pre @ e # post \<and> itemid e = iid \<and>
      matching_total iid pre \<le> unat arg \<and>
      unat arg - matching_total iid pre < unat (count e) \<and>
      items (RemoveItem iid isCountSpecified arg loot) =
        filter (\<lambda>e. itemid e \<noteq> iid) pre @
        e\<lparr>count := ucast (ucast (count e) - (arg - of_nat (matching_total iid pre)))\<rparr> # post \<and>
      unat (ucast (ucast (count e) - (arg - of_nat (matching_total iid pre)) :: uint32) :: uint8) =
        unat (count e) - (unat arg - matching_total iid pre)))"
proof -
  have a: "filter (\<lambda>e. itemid e \<noteq> iid) (items (RemoveItem iid isCountSpecified arg loot)) =
     filter (\<lambda>e. itemid e \<noteq> iid) (items loot)"
    by (simp add: RemoveItem_def RemoveItem_loop_others)
  show ?thesis
  proof (cases isCountSpecified)
    case False
    then show ?thesis using a by (simp add: RemoveItem_def RemoveItem_loop_unspecified)
  next
    case True
    show ?thesis
    proof (cases "matching_total iid (items loot) \<le> unat arg")
      case le: True
      then show ?thesis using a True by (simp add: RemoveItem_def RemoveItem_loop_all)
    next
      case gt: False
      then have "unat arg < matching_total iid (items loot)" by simp
      from RemoveItem_loop_partial[OF this]
      show ?thesis using a True gt by (simp add: RemoveItem_def)
    qed
  qed
qed

theorem RemoveItem_effect_witness:
  "matching_total 5 [\<lparr>itemid = 5, count = 3\<rparr>, \<lparr>itemid = 7, count = 1\<rparr>,
                     \<lparr>itemid = 5, count = 10\<rparr>, \<lparr>itemid = 5, count = 2\<rparr>] = 15 \<and>
   items (RemoveItem 5 True 6
     \<lparr>items = [\<lparr>itemid = 5, count = 3\<rparr>, \<lparr>itemid = 7, count = 1\<rparr>,
               \<lparr>itemid = 5, count = 10\<rparr>, \<lparr>itemid = 5, count = 2\<rparr>]\<rparr>) =
   [\<lparr>itemid = 7, count = 1\<rparr>, \<lparr>itemid = 5, count = 7\<rparr>, \<lparr>itemid = 5, count = 2\<rparr>]"
  using RemoveItem_effect [of 5 True 6
     "\<lparr>items = [\<lparr>itemid = 5, count = 3\<rparr>, \<lparr>itemid = 7, count = 1\<rparr>,
               \<lparr>itemid = 5, count = 10\<rparr>, \<lparr>itemid = 5, count = 2\<rparr>]\<rparr>"]
  by (simp add: RemoveItem_def)

section \<open>Timed events: proofs\<close>

subsection \<open>The multimap, well-formed states and the loop body\<close>

lemma set_multimap_insert [simp]: "set (multimap_insert k v xs) = insert (k, v) (set xs)"
  by (induction xs) (auto split: if_splits)

lemma sorted_multimap_insert:
  "sorted (map fst xs) \<Longrightarrow> sorted (map fst (multimap_insert k v xs))"
  by (induction xs) (fastforce simp: not_le dest: less_imp_le order_trans)+

lemma map_snd_multimap_insert:
  "set (map snd (multimap_insert k v xs)) = insert v (snd ` set xs)"
  by simp

lemma distinct_multimap_insert:
  "distinct (map snd xs) \<Longrightarrow> v \<notin> snd ` set xs \<Longrightarrow> distinct (map snd (multimap_insert k v xs))"
  by (induction xs) (auto simp: image_iff)


lemma length_multimap_insert [simp]: "length (multimap_insert k v xs) = Suc (length xs)"
  by (induction xs) auto

lemma well_formed_init: "well_formed ALEEventProcessor"
  by (simp add: well_formed_def ALEEventProcessor_def)

lemma AddEvent_ptr_Some:
  "heap s a = Some e \<Longrightarrow>
   AddEvent_ptr h a s =
     Some (s\<lparr>heap := (heap s)(a \<mapsto> e\<lparr>delay := urand h (draws s) (min_delay e) (max_delay e)\<rparr>),
             draws := Suc (draws s),
             eventList := multimap_insert (m_time s + ucast (urand h (draws s) (min_delay e) (max_delay e))) a (eventList s),
             eventMap := (eventMap s)(funcRef e \<mapsto> a)\<rparr>)"
  by (simp add: AddEvent_ptr_def GenerateDelay_def Let_def)

lemma AddEvent_Some:
  "AddEvent h f mn mx r s =
     Some (s\<lparr>heap := (heap s)(next_addr s \<mapsto> (LuaEvent_new f mn mx r)\<lparr>delay := urand h (draws s) mn mx\<rparr>),
             next_addr := Suc (next_addr s),
             draws := Suc (draws s),
             eventList := multimap_insert (m_time s + ucast (urand h (draws s) mn mx)) (next_addr s) (eventList s),
             eventMap := (eventMap s)(f \<mapsto> next_addr s)\<rparr>)"
  by (simp add: AddEvent_def AddEvent_ptr_def GenerateDelay_def Let_def LuaEvent_new_def)

lemma well_formed_fresh: "well_formed s \<Longrightarrow> next_addr s \<notin> snd ` set (eventList s)"
  and well_formed_fresh_heap: "well_formed s \<Longrightarrow> heap s (next_addr s) = None"
  unfolding well_formed_def by (auto simp: subset_iff)

lemma well_formed_AddEvent:
  assumes "well_formed s" "AddEvent h f mn mx r s = Some s'"
  shows "well_formed s'"
proof -
  have s': "s' = s\<lparr>heap := (heap s)(next_addr s \<mapsto> (LuaEvent_new f mn mx r)\<lparr>delay := urand h (draws s) mn mx\<rparr>),
             next_addr := Suc (next_addr s),
             draws := Suc (draws s),
             eventList := multimap_insert (m_time s + ucast (urand h (draws s) mn mx)) (next_addr s) (eventList s),
             eventMap := (eventMap s)(f \<mapsto> next_addr s)\<rparr>"
    using assms(2) by (simp add: AddEvent_Some)
  note fr = well_formed_fresh[OF assms(1)]
  have 1: "sorted (map fst (eventList s'))" using assms(1)
    by (simp add: s' well_formed_def sorted_multimap_insert)
  have 2: "distinct (map snd (eventList s'))" using assms(1) fr
    by (simp add: s' well_formed_def distinct_multimap_insert)
  have 3: "snd ` set (eventList s') \<subseteq> dom (heap s')" using assms(1)
    by (auto simp: s' well_formed_def)
  have 4: "dom (heap s') \<subseteq> {..< next_addr s'}" using assms(1)
    by (auto simp: s' well_formed_def)
  have 5: "\<forall>g a. eventMap s' g = Some a \<longrightarrow>
        a \<in> snd ` set (eventList s') \<and>
        (\<exists>e. heap s' a = Some e \<and> funcRef e = g \<and> state e \<noteq> LUAEVENT_STATE_ERASE)"
    using assms(1) fr unfolding s' well_formed_def
    by (auto simp: LuaEvent_new_def)
  show ?thesis unfolding well_formed_def using 1 2 3 4 5 by blast
qed

lemma LuaEvent_SetState_simps [simp]:
  "funcRef (LuaEvent_SetState st e) = funcRef e"
  "min_delay (LuaEvent_SetState st e) = min_delay e"
  "max_delay (LuaEvent_SetState st e) = max_delay e"
  "delay (LuaEvent_SetState st e) = delay e"
  "repeats (LuaEvent_SetState st e) = repeats e"
  "state (LuaEvent_SetState st e) = (if state e = LUAEVENT_STATE_ERASE then LUAEVENT_STATE_ERASE else st)"
  by (simp_all add: LuaEvent_SetState_def)

lemma LuaEvent_SetState_idem [simp]:
  "LuaEvent_SetState st (LuaEvent_SetState st e) = LuaEvent_SetState st e"
  by (simp add: LuaEvent_SetState_def)

lemma well_formedI:
  assumes "sorted (map fst (eventList s))" "distinct (map snd (eventList s))"
    "\<And>k a. (k, a) \<in> set (eventList s) \<Longrightarrow> \<exists>e. heap s a = Some e"
    "\<And>a e. heap s a = Some e \<Longrightarrow> a < next_addr s"
    "\<And>f a. eventMap s f = Some a \<Longrightarrow>
        (\<exists>k. (k, a) \<in> set (eventList s)) \<and>
        (\<exists>e. heap s a = Some e \<and> funcRef e = f \<and> state e \<noteq> LUAEVENT_STATE_ERASE)"
  shows "well_formed s"
  unfolding well_formed_def
proof (intro conjI allI impI)
  show "snd ` set (eventList s) \<subseteq> dom (heap s)" using assms(3) by fastforce
  show "dom (heap s) \<subseteq> {..< next_addr s}" using assms(4) by fastforce
  fix f a assume m: "eventMap s f = Some a"
  from assms(5)[OF m] show "a \<in> snd ` set (eventList s)" by force
  from assms(5)[OF m] show "\<exists>e. heap s a = Some e \<and> funcRef e = f \<and> state e \<noteq> LUAEVENT_STATE_ERASE"
    by blast
qed (use assms in auto)

lemma wf_sorted: "well_formed s \<Longrightarrow> sorted (map fst (eventList s))"
  and wf_distinct: "well_formed s \<Longrightarrow> distinct (map snd (eventList s))"
  by (simp_all add: well_formed_def)

lemma wf_listD: "well_formed s \<Longrightarrow> (k, a) \<in> set (eventList s) \<Longrightarrow> \<exists>e. heap s a = Some e"
  unfolding well_formed_def by (metis domD image_eqI snd_conv subsetD)

lemma wf_heapD: "well_formed s \<Longrightarrow> heap s a = Some e \<Longrightarrow> a < next_addr s"
  unfolding well_formed_def by (metis domI lessThan_iff subsetD)

lemma wf_mapD:
  "well_formed s \<Longrightarrow> eventMap s f = Some a \<Longrightarrow>
     (\<exists>k. (k, a) \<in> set (eventList s)) \<and>
     (\<exists>e. heap s a = Some e \<and> funcRef e = f \<and> state e \<noteq> LUAEVENT_STATE_ERASE)"
  unfolding well_formed_def by (metis (no_types, lifting) image_iff prod.collapse)

lemma SetStates_loop_Some:
  "snd ` set xs \<subseteq> dom hp \<Longrightarrow>
   SetStates_loop st xs hp =
     Some (\<lambda>a. if a \<in> snd ` set xs then map_option (LuaEvent_SetState st) (hp a) else hp a)"
proof (induction xs arbitrary: hp)
  case Nil
  then show ?case by simp
next
  case (Cons x xs)
  obtain k a where x: "x = (k, a)" by (cases x)
  from Cons.prems x obtain e where e: "hp a = Some e" by auto
  have sub: "snd ` set xs \<subseteq> dom (hp(a \<mapsto> LuaEvent_SetState st e))"
    using Cons.prems by auto
  have eq: "(\<lambda>b. if b \<in> snd ` set xs
              then map_option (LuaEvent_SetState st) ((hp(a \<mapsto> LuaEvent_SetState st e)) b)
              else (hp(a \<mapsto> LuaEvent_SetState st e)) b) =
        (\<lambda>b. if b \<in> snd ` set (x # xs) then map_option (LuaEvent_SetState st) (hp b) else hp b)"
    using e by (auto simp: fun_eq_iff x)
  have step: "SetStates_loop st (x # xs) hp = SetStates_loop st xs (hp(a \<mapsto> LuaEvent_SetState st e))"
    using e by (simp add: x)
  show ?case by (simp only: step Cons.IH[OF sub] eq)
qed

lemma SetStates_Some:
  "well_formed s \<Longrightarrow>
   SetStates st s =
     Some (s\<lparr>heap := (\<lambda>a. if a \<in> snd ` set (eventList s)
                          then map_option (LuaEvent_SetState st) (heap s a) else heap s a),
             eventMap := (if st = LUAEVENT_STATE_ERASE then Map.empty else eventMap s)\<rparr>)"
  by (simp add: SetStates_def SetStates_loop_Some well_formed_def)

lemma well_formed_SetStates:
  assumes "well_formed s"
  shows "\<exists>s'. SetStates st s = Some s' \<and> well_formed s'"
proof -
  let ?s' = "s\<lparr>heap := (\<lambda>a. if a \<in> snd ` set (eventList s)
                          then map_option (LuaEvent_SetState st) (heap s a) else heap s a),
             eventMap := (if st = LUAEVENT_STATE_ERASE then Map.empty else eventMap s)\<rparr>"
  have "well_formed ?s'"
  proof (rule well_formedI)
    fix k a assume "(k, a) \<in> set (eventList ?s')"
    then show "\<exists>e. heap ?s' a = Some e" using wf_listD[OF assms, of k a] by force
  next
    fix a e assume "heap ?s' a = Some e"
    then show "a < next_addr ?s'" using wf_heapD[OF assms, of a]
      by (auto split: if_splits)
  next
    fix f a assume m: "eventMap ?s' f = Some a"
    then have m': "eventMap s f = Some a" and st: "st \<noteq> LUAEVENT_STATE_ERASE"
      by (auto split: if_splits)
    from wf_mapD[OF assms m'] obtain k e where ke: "(k, a) \<in> set (eventList s)"
      "heap s a = Some e" "funcRef e = f" "state e \<noteq> LUAEVENT_STATE_ERASE" by blast
    then have "heap ?s' a = Some (LuaEvent_SetState st e)" by force
    then show "(\<exists>k. (k, a) \<in> set (eventList ?s')) \<and>
        (\<exists>e. heap ?s' a = Some e \<and> funcRef e = f \<and> state e \<noteq> LUAEVENT_STATE_ERASE)"
      using ke st by auto
  qed (use assms in \<open>simp_all add: wf_sorted wf_distinct\<close>)
  then show ?thesis by (simp add: SetStates_Some[OF assms])
qed

lemma eventMap_erase_absent:
  "eventMap s f = None \<Longrightarrow> s\<lparr>eventMap := (eventMap s)(f := None)\<rparr> = s"
  by (simp add: fun_upd_idem)

lemma SetState_Some:
  "well_formed s \<Longrightarrow>
   SetState f st s =
     Some (case eventMap s f of
             None \<Rightarrow> s
           | Some a \<Rightarrow>
               s\<lparr>heap := (heap s)(a := map_option (LuaEvent_SetState st) (heap s a)),
                 eventMap := (if st = LUAEVENT_STATE_ERASE then (eventMap s)(f := None) else eventMap s)\<rparr>)"
  by (auto simp: SetState_def eventMap_erase_absent split: option.splits dest: wf_mapD)

lemma well_formed_SetState:
  assumes "well_formed s"
  shows "\<exists>s'. SetState f st s = Some s' \<and> well_formed s'"
proof (cases "eventMap s f")
  case None
  then show ?thesis using assms by (simp add: SetState_Some)
next
  case (Some a)
  from wf_mapD[OF assms Some] obtain k e where e: "(k, a) \<in> set (eventList s)" "heap s a = Some e"
    "funcRef e = f" "state e \<noteq> LUAEVENT_STATE_ERASE"
    by blast
  let ?s' = "s\<lparr>heap := (heap s)(a := map_option (LuaEvent_SetState st) (heap s a)),
                 eventMap := (if st = LUAEVENT_STATE_ERASE then (eventMap s)(f := None) else eventMap s)\<rparr>"
  have "well_formed ?s'"
  proof (rule well_formedI)
    fix k b assume "(k, b) \<in> set (eventList ?s')"
    then show "\<exists>e. heap ?s' b = Some e" using wf_listD[OF assms, of k b] e by auto
  next
    fix b e' assume "heap ?s' b = Some e'"
    then show "b < next_addr ?s'" using wf_heapD[OF assms, of b] e
      by (auto split: if_splits)
  next
    fix g b assume m: "eventMap ?s' g = Some b"
    then have m': "eventMap s g = Some b" and st: "st = LUAEVENT_STATE_ERASE \<longrightarrow> g \<noteq> f"
      by (auto split: if_splits)
    from wf_mapD[OF assms m'] obtain k' e' where ke: "(k', b) \<in> set (eventList s)"
      "heap s b = Some e'" "funcRef e' = g" "state e' \<noteq> LUAEVENT_STATE_ERASE" by blast
    have "b = a \<Longrightarrow> g = f" using ke e by simp
    then have "\<exists>e. heap ?s' b = Some e \<and> funcRef e = g \<and> state e \<noteq> LUAEVENT_STATE_ERASE"
      using ke e st by (cases "b = a") auto
    then show "(\<exists>k. (k, b) \<in> set (eventList ?s')) \<and>
        (\<exists>e. heap ?s' b = Some e \<and> funcRef e = g \<and> state e \<noteq> LUAEVENT_STATE_ERASE)"
      using ke by auto
  qed (use assms in \<open>simp_all add: wf_sorted wf_distinct\<close>)
  then show ?thesis using Some by (simp add: SetState_Some[OF assms])
qed

lemma well_formed_apply_op:
  assumes "well_formed s"
  shows "\<exists>s'. apply_op h x s = Some s' \<and> well_formed s'"
proof (cases x)
  case (Op_AddEvent f mn mx r)
  then show ?thesis using well_formed_AddEvent[OF assms] by (simp add: AddEvent_Some)
next
  case (Op_SetState f st)
  then show ?thesis using well_formed_SetState[OF assms] by simp
next
  case (Op_SetStates st)
  then show ?thesis using well_formed_SetStates[OF assms] by simp
qed

lemma apply_ops_invariant:
  assumes "\<And>x s. P s \<Longrightarrow> x \<in> set xs \<Longrightarrow> \<exists>s'. apply_op h x s = Some s' \<and> P s'"
    and "P s"
  shows "\<exists>s'. apply_ops h xs s = Some s' \<and> P s'"
  using assms
proof (induction xs arbitrary: s)
  case Nil
  then show ?case by simp
next
  case (Cons x xs)
  from Cons.prems(1)[OF Cons.prems(2), of x] obtain s1 where s1: "apply_op h x s = Some s1" "P s1"
    by auto
  have "\<exists>s'. apply_ops h xs s1 = Some s' \<and> P s'"
    by (rule Cons.IH) (use Cons.prems(1) s1 in auto)
  then show ?case using s1 by simp
qed

lemma well_formed_apply_ops:
  "well_formed s \<Longrightarrow> \<exists>s'. apply_ops h xs s = Some s' \<and> well_formed s'"
  by (rule apply_ops_invariant[where P = well_formed]) (auto intro: well_formed_apply_op)

lemma dec_repeats_simps [simp]:
  "funcRef (dec_repeats e) = funcRef e" "state (dec_repeats e) = state e"
  "min_delay (dec_repeats e) = min_delay e" "max_delay (dec_repeats e) = max_delay e"
  "delay (dec_repeats e) = delay e"
  by (simp_all add: dec_repeats_def)

lemma popped_simps [simp]:
  "m_time (popped s rest e) = m_time s" "heap (popped s rest e) = heap s"
  "draws (popped s rest e) = draws s" "calls (popped s rest e) = calls s"
  "next_addr (popped s rest e) = next_addr s" "eventList (popped s rest e) = rest"
  "eventMap (popped s rest e) =
     (if state e \<noteq> LUAEVENT_STATE_ERASE then (eventMap s)(funcRef e := None) else eventMap s)"
  by (simp_all add: popped_def)

lemma rescheduled_simps [simp]:
  "m_time (rescheduled h s rest a e) = m_time s"
  "heap (rescheduled h s rest a e) =
     (heap s)(a \<mapsto> dec_repeats (e\<lparr>delay := urand h (draws s) (min_delay e) (max_delay e)\<rparr>))"
  "draws (rescheduled h s rest a e) = Suc (draws s)" "calls (rescheduled h s rest a e) = calls s"
  "next_addr (rescheduled h s rest a e) = next_addr s"
  "eventList (rescheduled h s rest a e) =
     multimap_insert (m_time s + ucast (urand h (draws s) (min_delay e) (max_delay e))) a rest"
  "eventMap (rescheduled h s rest a e) = (eventMap s)(funcRef e \<mapsto> a)"
  by (simp_all add: rescheduled_def Let_def)

lemma option_case_id: "(case x of None \<Rightarrow> None | Some y \<Rightarrow> Some y) = x"
  by (cases x) simp_all

lemma Update_body_unfold:
  assumes "eventList s = (k, a) # rest" "heap s a = Some e"
  shows "Update_body h s =
    (if state e = LUAEVENT_STATE_RUN then
       (if repeats e = 1 then
          (case OnTimedEvent h (funcRef e) (delay e) (repeats e)
                  ((popped s rest e)\<lparr>heap := (heap s)(a \<mapsto> dec_repeats e)\<rparr>) of
             None \<Rightarrow> None
           | Some s5 \<Rightarrow> RemoveEvent h a s5)
        else OnTimedEvent h (funcRef e) (delay e) (repeats e) (rescheduled h s rest a e))
     else RemoveEvent h a (popped s rest e))"
proof -
  let ?s2 = "popped s rest e"
  have s2: "(if state e \<noteq> LUAEVENT_STATE_ERASE
             then (s\<lparr>eventList := rest\<rparr>)\<lparr>eventMap := (eventMap (s\<lparr>eventList := rest\<rparr>))(funcRef e := None)\<rparr>
             else s\<lparr>eventList := rest\<rparr>) = ?s2"
    by (simp add: popped_def)
  have body: "Update_body h s =
      (if state e = LUAEVENT_STATE_RUN then
                 (let d = delay e; remove = (repeats e = 1) in
                  case (if \<not> remove then AddEvent_ptr h a ?s2 else Some ?s2) of
                    None \<Rightarrow> None
                  | Some s3 \<Rightarrow>
                      (case heap s3 a of
                         None \<Rightarrow> None
                       | Some ev \<Rightarrow>
                           let c = repeats ev;
                               s4 = (if repeats ev \<noteq> 0
                                     then s3\<lparr>heap := (heap s3)(a \<mapsto> ev\<lparr>repeats := repeats ev - 1\<rparr>)\<rparr>
                                     else s3)
                           in
                           (case OnTimedEvent h (funcRef ev) d c s4 of
                              None \<Rightarrow> None
                            | Some s5 \<Rightarrow> if \<not> remove then Some s5 else RemoveEvent h a s5)))
               else RemoveEvent h a ?s2)"
    unfolding Update_body_def using assms by (simp add: Let_def popped_def)
  show ?thesis
  proof (cases "state e = LUAEVENT_STATE_RUN")
    case False
    then show ?thesis by (simp add: body)
  next
    case run: True
    have h2: "heap ?s2 a = Some e" using assms by (simp add: popped_def)
    show ?thesis
    proof (cases "repeats e = 1")
      case True
      have "(popped s rest e)\<lparr>heap := (heap (popped s rest e))(a \<mapsto> e\<lparr>repeats := repeats e - 1\<rparr>)\<rparr> =
            (popped s rest e)\<lparr>heap := (heap s)(a \<mapsto> dec_repeats e)\<rparr>"
        using True by (simp add: popped_def dec_repeats_def)
      then show ?thesis using run True h2 by (simp add: body Let_def cong: option.case_cong)
    next
      case False
      let ?d = "urand h (draws s) (min_delay e) (max_delay e)"
      let ?s3 = "?s2\<lparr>heap := (heap ?s2)(a \<mapsto> e\<lparr>delay := ?d\<rparr>),
             draws := Suc (draws ?s2),
             eventList := multimap_insert (m_time ?s2 + ucast ?d) a (eventList ?s2),
             eventMap := (eventMap ?s2)(funcRef e \<mapsto> a)\<rparr>"
      have s3: "AddEvent_ptr h a ?s2 = Some ?s3"
        using h2 by (simp add: AddEvent_ptr_Some)
      have h3: "heap ?s3 a = Some (e\<lparr>delay := ?d\<rparr>)" by simp
      have s4: "(if repeats (e\<lparr>delay := ?d\<rparr>) \<noteq> 0
                 then ?s3\<lparr>heap := (heap ?s3)(a \<mapsto> (e\<lparr>delay := ?d\<rparr>)\<lparr>repeats := repeats (e\<lparr>delay := ?d\<rparr>) - 1\<rparr>)\<rparr>
                 else ?s3) = rescheduled h s rest a e"
        by (rule processor.equality) (auto simp: dec_repeats_def fun_eq_iff)
      have "Update_body h s =
          (case OnTimedEvent h (funcRef e) (delay e) (repeats e) (rescheduled h s rest a e) of
             None \<Rightarrow> None | Some s5 \<Rightarrow> Some s5)"
        unfolding body using run False
        by (simp only: if_True if_False Let_def s3 option.case h3 s4 not_False_eq_True
            LuaEvent.simps refl not_True_eq_False) simp
      then show ?thesis using run False by (simp add: option_case_id)
    qed
  qed
qed

subsection \<open>Operations on steady states\<close>

lemma kept_refl [simp]: "kept t L L"
  by (simp add: kept_def)



lemma unat_ucast_32_64 [simp]: "unat (ucast (d :: uint32) :: uint64) = unat d"
proof -
  have "unat d < 2 ^ 32" using unsigned_less[of d, where 'a=nat] by simp
  then have "unat d < 2 ^ 64" by simp
  then show ?thesis by (simp add: unsigned_ucast_eq take_bit_nat_eq_self)
qed









subsection \<open>One pass of the loop\<close>

lemma steady_calls [simp]: "steady (s\<lparr>calls := c\<rparr>) = steady s"
  by (simp add: steady_def well_formed_def delays_ok_def time_ok_def)

lemma in_flight_calls [simp]: "in_flight a e (s\<lparr>calls := c\<rparr>) = in_flight a e s"
  by (simp add: in_flight_def)


lemma RemoveEvent_Some:
  "heap s a = Some e \<Longrightarrow>
   RemoveEvent h a s =
     Some (s\<lparr>calls := calls s @
                    (if state e \<noteq> LUAEVENT_STATE_ERASE \<and> IsInitialized h \<and> HasLuaState h
                     then [luaL_unref_call (funcRef e)] else []),
             heap := (heap s)(a := None)\<rparr>)"
  by (simp add: RemoveEvent_def)

lemma well_formed_delete:
  assumes wf: "well_formed s" and fl: "in_flight a e s"
  shows "well_formed (s\<lparr>calls := c, heap := (heap s)(a := None)\<rparr>)"
proof -
  let ?s' = "s\<lparr>calls := c, heap := (heap s)(a := None)\<rparr>"
  have nl: "a \<notin> snd ` set (eventList s)" and nm: "\<And>f. eventMap s f \<noteq> Some a"
    using fl by (auto simp: in_flight_def)
  show ?thesis
  proof (rule well_formedI)
    fix k b assume "(k, b) \<in> set (eventList ?s')"
    then have "(k, b) \<in> set (eventList s)" by simp
    with nl wf_listD[OF wf this] show "\<exists>e. heap ?s' b = Some e" by force
  next
    fix b e' assume "heap ?s' b = Some e'"
    then show "b < next_addr ?s'" using wf_heapD[OF wf, of b] by (auto split: if_splits)
  next
    fix g b assume m: "eventMap ?s' g = Some b"
    then have m': "eventMap s g = Some b" by simp
    with nm have "b \<noteq> a" by auto
    with wf_mapD[OF wf m'] show "(\<exists>k. (k, b) \<in> set (eventList ?s')) \<and>
        (\<exists>e. heap ?s' b = Some e \<and> funcRef e = g \<and> state e \<noteq> LUAEVENT_STATE_ERASE)"
      by auto
  qed (use wf in \<open>simp_all add: wf_sorted wf_distinct\<close>)
qed


lemma well_formed_popped:
  assumes wf: "well_formed s" and l: "eventList s = (k, a) # rest" and he: "heap s a = Some e"
  shows "well_formed (popped s rest e)" "in_flight a e (popped s rest e)"
proof -
  have nl: "a \<notin> snd ` set rest" using wf_distinct[OF wf] l by (auto simp: image_iff)
  have nm: "eventMap (popped s rest e) g \<noteq> Some a" for g
  proof
    assume m: "eventMap (popped s rest e) g = Some a"
    then have m': "eventMap s g = Some a" by (auto split: if_splits)
    from wf_mapD[OF wf m'] he have "funcRef e = g" "state e \<noteq> LUAEVENT_STATE_ERASE" by auto
    with m show False by simp
  qed
  show "in_flight a e (popped s rest e)"
    using he nl nm by (simp add: in_flight_def)
  show "well_formed (popped s rest e)"
  proof (rule well_formedI)
    show "sorted (map fst (eventList (popped s rest e)))"
      using wf_sorted[OF wf] l by simp
    show "distinct (map snd (eventList (popped s rest e)))"
      using wf_distinct[OF wf] l by simp
  next
    fix k' b assume "(k', b) \<in> set (eventList (popped s rest e))"
    then have "(k', b) \<in> set (eventList s)" using l by simp
    from wf_listD[OF wf this] show "\<exists>e'. heap (popped s rest e) b = Some e'" by simp
  next
    fix b e' assume "heap (popped s rest e) b = Some e'"
    then show "b < next_addr (popped s rest e)" using wf_heapD[OF wf, of b] by simp
  next
    fix g b assume m: "eventMap (popped s rest e) g = Some b"
    then have m': "eventMap s g = Some b" by (auto split: if_splits)
    have "b \<noteq> a" using nm[of g] m by auto
    with wf_mapD[OF wf m'] l show "(\<exists>k. (k, b) \<in> set (eventList (popped s rest e))) \<and>
        (\<exists>e'. heap (popped s rest e) b = Some e' \<and> funcRef e' = g \<and> state e' \<noteq> LUAEVENT_STATE_ERASE)"
      by auto
  qed
qed


lemma well_formed_heap_in_flight:
  assumes wf: "well_formed s" and fl: "in_flight a e s"
  shows "well_formed (s\<lparr>heap := (heap s)(a \<mapsto> e')\<rparr>)" "in_flight a e' (s\<lparr>heap := (heap s)(a \<mapsto> e')\<rparr>)"
proof -
  let ?s' = "s\<lparr>heap := (heap s)(a \<mapsto> e')\<rparr>"
  have he: "heap s a = Some e" and nl: "a \<notin> snd ` set (eventList s)"
    and nm: "\<And>f. eventMap s f \<noteq> Some a"
    using fl by (auto simp: in_flight_def)
  show "in_flight a e' ?s'" using nl nm by (simp add: in_flight_def)
  show "well_formed ?s'"
  proof (rule well_formedI)
    fix k b assume "(k, b) \<in> set (eventList ?s')"
    then have "(k, b) \<in> set (eventList s)" by simp
    from wf_listD[OF wf this] show "\<exists>e. heap ?s' b = Some e" by simp
  next
    fix b e'' assume "heap ?s' b = Some e''"
    then show "b < next_addr ?s'" using wf_heapD[OF wf, of b] wf_heapD[OF wf he]
      by (auto split: if_splits)
  next
    fix g b assume m: "eventMap ?s' g = Some b"
    then have m': "eventMap s g = Some b" by simp
    with nm have "b \<noteq> a" by auto
    with wf_mapD[OF wf m'] show "(\<exists>k. (k, b) \<in> set (eventList ?s')) \<and>
        (\<exists>e. heap ?s' b = Some e \<and> funcRef e = g \<and> state e \<noteq> LUAEVENT_STATE_ERASE)"
      by auto
  qed (use wf in \<open>simp_all add: wf_sorted wf_distinct\<close>)
qed


lemma well_formed_rescheduled:
  assumes wf: "well_formed s" and l: "eventList s = (k, a) # rest" and he: "heap s a = Some e"
    and run: "state e = LUAEVENT_STATE_RUN"
  shows "well_formed (rescheduled h s rest a e)"
proof -
  let ?s' = "rescheduled h s rest a e"
  have nl: "a \<notin> snd ` set rest" using wf_distinct[OF wf] l by (auto simp: image_iff)
  show ?thesis
  proof (rule well_formedI)
    show "sorted (map fst (eventList ?s'))"
      using wf_sorted[OF wf] l by (simp add: sorted_multimap_insert)
    show "distinct (map snd (eventList ?s'))"
      using wf_distinct[OF wf] l nl by (simp add: distinct_multimap_insert)
  next
    fix k' b assume "(k', b) \<in> set (eventList ?s')"
    then have "b = a \<or> (k', b) \<in> set (eventList s)" using l by auto
    then show "\<exists>e'. heap ?s' b = Some e'" using wf_listD[OF wf] by auto
  next
    fix b e' assume "heap ?s' b = Some e'"
    then show "b < next_addr ?s'" using wf_heapD[OF wf, of b] wf_heapD[OF wf he]
      by (auto split: if_splits)
  next
    fix g b assume m: "eventMap ?s' g = Some b"
    show "(\<exists>k. (k, b) \<in> set (eventList ?s')) \<and>
        (\<exists>e'. heap ?s' b = Some e' \<and> funcRef e' = g \<and> state e' \<noteq> LUAEVENT_STATE_ERASE)"
    proof (cases "g = funcRef e")
      case True
      with m have "b = a" by simp
      then show ?thesis using True run by auto
    next
      case False
      with m have m': "eventMap s g = Some b" by simp
      from wf_mapD[OF wf m'] he False have "b \<noteq> a" by auto
      with wf_mapD[OF wf m'] l show ?thesis by auto
    qed
  qed
qed



subsection \<open>Passes and the loop\<close>


lemma Update_passes_end:
  "Update_passes h (Suc n) s =
     (case Update_passes h n s of None \<Rightarrow> None | Some s' \<Rightarrow> Update_body h s')"
proof (induction n arbitrary: s)
  case 0
  show ?case by (cases "Update_body h s") simp_all
next
  case (Suc n)
  have "Update_passes h (Suc (Suc n)) s =
      (case Update_body h s of None \<Rightarrow> None | Some s1 \<Rightarrow> Update_passes h (Suc n) s1)"
    by (rule Update_passes.simps(2))
  also have "\<dots> = (case Update_body h s of None \<Rightarrow> None
      | Some s1 \<Rightarrow> (case Update_passes h n s1 of None \<Rightarrow> None | Some s' \<Rightarrow> Update_body h s'))"
    by (simp only: Suc.IH)
  also have "\<dots> = (case Update_passes h (Suc n) s of None \<Rightarrow> None | Some s' \<Rightarrow> Update_body h s')"
    by (cases "Update_body h s") simp_all
  finally show ?case .
qed





subsection \<open>A drain processes the due entries\<close>

lemma Update_advance: "Update h fuel diff s = Update_loop h fuel (advance diff s)"
  by (simp add: Update_def advance_def)

lemma advance_simps [simp]:
  "m_time (advance diff s) = m_time s + ucast diff" "eventList (advance diff s) = eventList s"
  "eventMap (advance diff s) = eventMap s" "heap (advance diff s) = heap s"
  "calls (advance diff s) = calls s" "next_addr (advance diff s) = next_addr s"
  "draws (advance diff s) = draws s"
  by (simp_all add: advance_def)





subsection \<open>Examples, zero delays and unknown handles\<close>

lemma Update_loop_eq:
  "Update_loop h n s =
     (if Update_cond s
      then (case n of 0 \<Rightarrow> Still_running
            | Suc m \<Rightarrow> (case Update_body h s of None \<Rightarrow> Faults | Some s' \<Rightarrow> Update_loop h m s'))
      else Returns s)"
  by (cases n) simp_all

lemmas run_simps = example_host_def AddEvent_def AddEvent_ptr_def GenerateDelay_def Update_def ALEEventProcessor_def
  LuaEvent_new_def Update_cond_def Update_body_def OnTimedEvent_def RemoveEvent_def Update_loop_eq
  SetState_def SetStates_def LuaEvent_SetState_def






text \<open>
  Claim C8. \<open>SetState\<close> on a handle that \<open>eventMap\<close> does not hold returns normally and
  leaves the whole state as it was: \<open>eventList\<close>, \<open>eventMap\<close> and every event.
\<close>

theorem SetState_unknown_handle:
  "eventMap s eventId = None \<Longrightarrow> SetState eventId st s = Some s"
  by (simp add: SetState_def eventMap_erase_absent)

theorem SetState_unknown_handle_witness:
  "(case AddEvent example_host 1 10 10 1 ALEEventProcessor of
      None \<Rightarrow> False
    | Some s \<Rightarrow> eventMap s 7 = None \<and> SetState 7 LUAEVENT_STATE_ERASE s = Some s \<and>
        SetState 7 LUAEVENT_STATE_ABORT s = Some s)"
proof -
  obtain s where s: "AddEvent example_host 1 10 10 1 ALEEventProcessor = Some s"
    by (simp add: AddEvent_Some)
  then have m: "eventMap s 7 = None" by (auto simp: AddEvent_Some ALEEventProcessor_def)
  show ?thesis
    using SetState_unknown_handle[OF m, of LUAEVENT_STATE_ERASE]
      SetState_unknown_handle[OF m, of LUAEVENT_STATE_ABORT] m s by simp
qed

subsection \<open>Reschedule before the callback\<close>

lemma OnTimedEvent_unfold:
  "OnTimedEvent h f d c s =
     apply_ops h (script h f d c (s\<lparr>calls := calls s @ [OnTimedEvent_call f d c]\<rparr>))
       (s\<lparr>calls := calls s @ [OnTimedEvent_call f d c]\<rparr>)"
  by (simp add: OnTimedEvent_def Let_def)

text \<open>
  Claim C6. In a pass for a RUN event that is not on its last repetition, the callback
  runs in a state \<open>s_cb\<close> in which the event is already rescheduled: a new delay is drawn,
  the event is in \<open>eventList\<close> at \<open>m_time\<close> plus that delay and in \<open>eventMap\<close> under its
  handle. A callback that cancels its own handle with ABORT therefore marks the
  rescheduled entry.
\<close>

theorem reschedule_before_callback:
  assumes "eventList s = (k, a) # rest" "heap s a = Some e" "state e = LUAEVENT_STATE_RUN"
    "repeats e \<noteq> 1"
  shows "\<exists>s_cb d'. d' = urand h (draws s) (min_delay e) (max_delay e) \<and>
      Update_body h s = apply_ops h (script h (funcRef e) (delay e) (repeats e) s_cb) s_cb \<and>
      calls s_cb = calls s @ [OnTimedEvent_call (funcRef e) (delay e) (repeats e)] \<and>
      eventMap s_cb (funcRef e) = Some a \<and>
      (m_time s + ucast d', a) \<in> set (eventList s_cb) \<and>
      heap s_cb a = Some (e\<lparr>delay := d', repeats := (if repeats e = 0 then 0 else repeats e - 1)\<rparr>) \<and>
      (script h (funcRef e) (delay e) (repeats e) s_cb = [Op_SetState (funcRef e) LUAEVENT_STATE_ABORT] \<longrightarrow>
         (\<exists>s'. Update_body h s = Some s' \<and> (m_time s + ucast d', a) \<in> set (eventList s') \<and>
            eventMap s' (funcRef e) = Some a \<and>
            heap s' a = Some (e\<lparr>delay := d', repeats := (if repeats e = 0 then 0 else repeats e - 1),
                                state := LUAEVENT_STATE_ABORT\<rparr>) \<and>
            calls s' = calls s_cb))"
proof -
  let ?d = "urand h (draws s) (min_delay e) (max_delay e)"
  let ?e' = "e\<lparr>delay := ?d, repeats := (if repeats e = 0 then 0 else repeats e - 1)\<rparr>"
  let ?cb = "(rescheduled h s rest a e)\<lparr>calls := calls s @ [OnTimedEvent_call (funcRef e) (delay e) (repeats e)]\<rparr>"
  have u: "Update_body h s = apply_ops h (script h (funcRef e) (delay e) (repeats e) ?cb) ?cb"
    using Update_body_unfold[OF assms(1,2), of h] assms(3,4)
    by (simp add: OnTimedEvent_unfold)
  have hp: "heap ?cb a = Some ?e'" by (simp add: dec_repeats_def)
  have mp: "eventMap ?cb (funcRef e) = Some a" by simp
  have ls: "(m_time s + ucast ?d, a) \<in> set (eventList ?cb)" by simp
  have cl: "calls ?cb = calls s @ [OnTimedEvent_call (funcRef e) (delay e) (repeats e)]" by simp
  have self: "\<exists>s'. Update_body h s = Some s' \<and> (m_time s + ucast ?d, a) \<in> set (eventList s') \<and>
            eventMap s' (funcRef e) = Some a \<and>
            heap s' a = Some (?e'\<lparr>state := LUAEVENT_STATE_ABORT\<rparr>) \<and> calls s' = calls ?cb"
    if sc: "script h (funcRef e) (delay e) (repeats e) ?cb = [Op_SetState (funcRef e) LUAEVENT_STATE_ABORT]"
  proof -
    have "SetState (funcRef e) LUAEVENT_STATE_ABORT ?cb =
        Some (?cb\<lparr>heap := (heap ?cb)(a \<mapsto> LuaEvent_SetState LUAEVENT_STATE_ABORT ?e')\<rparr>)"
      unfolding SetState_def using hp mp by simp
    moreover have "LuaEvent_SetState LUAEVENT_STATE_ABORT ?e' = ?e'\<lparr>state := LUAEVENT_STATE_ABORT\<rparr>"
      using assms(3) by (simp add: LuaEvent_SetState_def)
    ultimately have "Update_body h s =
        Some (?cb\<lparr>heap := (heap ?cb)(a \<mapsto> ?e'\<lparr>state := LUAEVENT_STATE_ABORT\<rparr>)\<rparr>)"
      unfolding u sc by simp
    then show ?thesis by simp
  qed
  show ?thesis
    apply (rule exI[of _ ?cb], rule exI[of _ ?d])
    using u hp mp ls cl self by simp
qed

theorem reschedule_before_callback_witness:
  "(case AddEvent example_host 3 10 10 0 ALEEventProcessor of
      None \<Rightarrow> False
    | Some s \<Rightarrow>
        eventList (advance 10 s) = [(10, 0)] \<and>
        map_option state (heap (advance 10 s) 0) = Some LUAEVENT_STATE_RUN \<and>
        map_option repeats (heap (advance 10 s) 0) = Some 0 \<and>
        (case Update_body example_host (advance 10 s) of
           None \<Rightarrow> False
         | Some s' \<Rightarrow> eventList s' = [(20, 0)] \<and> eventMap s' 3 = Some 0 \<and>
             map_option state (heap s' 0) = Some LUAEVENT_STATE_ABORT \<and>
             calls s' = [OnTimedEvent_call 3 10 0]))"
proof -
  obtain s where s: "AddEvent example_host 3 10 10 0 ALEEventProcessor = Some s"
    by (simp add: AddEvent_Some)
  let ?e = "\<lparr>min_delay = 10, max_delay = 10, delay = 10, repeats = 0, funcRef = 3,
      state = LUAEVENT_STATE_RUN\<rparr>"
  have l: "eventList (advance 10 s) = (10, 0) # []" and hp: "heap (advance 10 s) 0 = Some ?e"
    and t: "m_time (advance 10 s) = 10" and c: "calls (advance 10 s) = []"
    and dr: "draws (advance 10 s) = 1"
    using s by (auto simp: AddEvent_Some ALEEventProcessor_def LuaEvent_new_def example_host_def)
  have sc: "\<And>s_cb. script example_host (funcRef ?e) (delay ?e) (repeats ?e) s_cb =
      [Op_SetState (funcRef ?e) LUAEVENT_STATE_ABORT]"
    by (simp add: example_host_def)
  from reschedule_before_callback[OF l hp, of example_host] sc
  obtain s' where "Update_body example_host (advance 10 s) = Some s'"
    "(m_time (advance 10 s) + ucast (urand example_host (draws (advance 10 s)) (min_delay ?e) (max_delay ?e)), 0)
       \<in> set (eventList s')"
    "eventMap s' (funcRef ?e) = Some 0"
    "heap s' 0 = Some (?e\<lparr>delay := urand example_host (draws (advance 10 s)) (min_delay ?e) (max_delay ?e),
        repeats := (if repeats ?e = 0 then 0 else repeats ?e - 1), state := LUAEVENT_STATE_ABORT\<rparr>)"
    by auto
  moreover from this(1) have "eventList s' = [(20, 0)]" "calls s' = [OnTimedEvent_call 3 10 0]"
    using l hp t c dr
    by (auto simp: Update_body_def AddEvent_ptr_def GenerateDelay_def OnTimedEvent_def SetState_def
        LuaEvent_SetState_def example_host_def Let_def)
  ultimately show ?thesis using s l hp by simp
qed

subsection \<open>Adding a handle twice\<close>

text \<open>
  Claim C2, as stated, fails: after two \<open>AddEvent\<close> calls with handle 1 (delays 10 and 20,
  one repetition each), \<open>Update(10)\<close> does not skip the first event: it calls its callback,
  releases the reference, and erases handle 1 from \<open>eventMap\<close>, where it pointed to the
  second event.
\<close>

theorem orphaned_event_still_fires:
  "(case AddEvent example_host 1 10 10 1 ALEEventProcessor of
      None \<Rightarrow> None
    | Some s \<Rightarrow>
        (case AddEvent example_host 1 20 20 1 s of
           None \<Rightarrow> None
         | Some s1 \<Rightarrow>
             (case Update example_host 2 10 s1 of
                Returns s2 \<Rightarrow> Some (eventMap s1 1, calls s2, eventList s2, eventMap s2 1)
              | _ \<Rightarrow> None))) =
   Some (Some 1, [OnTimedEvent_call 1 10 1, luaL_unref_call 1], [(20, 1)], None)"
  by (simp add: run_simps)

text \<open>
  Claim C2, amended. \<open>AddEvent\<close> with a handle that \<open>eventMap\<close> already holds overwrites the
  map entry with the new event and leaves the prior event in \<open>eventList\<close>, unchanged. When
  the prior event, still in state RUN, is the first entry in a later pass of \<open>Update\<close>, the
  pass does not skip it: it calls \<open>OnTimedEvent\<close> for it, in a state whose \<open>eventMap\<close> no
  longer points to the newer event.
\<close>

theorem AddEvent_same_handle:
  assumes "well_formed s" "eventMap s f = Some a0"
  shows "\<exists>k0 e0 s1. (k0, a0) \<in> set (eventList s) \<and> heap s a0 = Some e0 \<and> funcRef e0 = f \<and>
      AddEvent h f mn mx r s = Some s1 \<and>
      eventMap s1 f = Some (next_addr s) \<and> next_addr s \<noteq> a0 \<and>
      (k0, a0) \<in> set (eventList s1) \<and> heap s1 a0 = Some e0 \<and>
      (\<forall>s2 rest. eventList s2 = (k0, a0) # rest \<and> heap s2 a0 = Some e0 \<and>
          state e0 = LUAEVENT_STATE_RUN \<longrightarrow>
          (\<exists>s_pre. Update_body h s2 =
              (case OnTimedEvent h f (delay e0) (repeats e0) s_pre of
                 None \<Rightarrow> None
               | Some s5 \<Rightarrow> if repeats e0 = 1 then RemoveEvent h a0 s5 else Some s5) \<and>
             calls s_pre = calls s2 \<and>
             eventMap s_pre f \<noteq> Some (next_addr s)))"
proof -
  from wf_mapD[OF assms] obtain k0 e0 where e0: "(k0, a0) \<in> set (eventList s)"
    "heap s a0 = Some e0" "funcRef e0 = f" by blast
  have ne: "next_addr s \<noteq> a0" using wf_heapD[OF assms(1) e0(2)] by simp
  let ?s1 = "s\<lparr>heap := (heap s)(next_addr s \<mapsto> (LuaEvent_new f mn mx r)\<lparr>delay := urand h (draws s) mn mx\<rparr>),
             next_addr := Suc (next_addr s),
             draws := Suc (draws s),
             eventList := multimap_insert (m_time s + ucast (urand h (draws s) mn mx)) (next_addr s) (eventList s),
             eventMap := (eventMap s)(f \<mapsto> next_addr s)\<rparr>"
  have s1: "AddEvent h f mn mx r s = Some ?s1" by (rule AddEvent_Some)
  have later: "\<exists>s_pre. Update_body h s2 =
              (case OnTimedEvent h f (delay e0) (repeats e0) s_pre of
                 None \<Rightarrow> None
               | Some s5 \<Rightarrow> if repeats e0 = 1 then RemoveEvent h a0 s5 else Some s5) \<and>
             calls s_pre = calls s2 \<and>
             eventMap s_pre f \<noteq> Some (next_addr s)"
    if h: "eventList s2 = (k0, a0) # rest" "heap s2 a0 = Some e0" "state e0 = LUAEVENT_STATE_RUN"
    for s2 rest
  proof (cases "repeats e0 = 1")
    case True
    let ?pre = "(popped s2 rest e0)\<lparr>heap := (heap s2)(a0 \<mapsto> dec_repeats e0)\<rparr>"
    have "Update_body h s2 = (case OnTimedEvent h f (delay e0) (repeats e0) ?pre of
                 None \<Rightarrow> None
               | Some s5 \<Rightarrow> if repeats e0 = 1 then RemoveEvent h a0 s5 else Some s5)"
      using Update_body_unfold[OF h(1,2), of h] h(3) True e0(3) by (simp cong: option.case_cong)
    moreover have "eventMap ?pre f \<noteq> Some (next_addr s)" "calls ?pre = calls s2"
      using h(3) e0(3) by simp_all
    ultimately show ?thesis by blast
  next
    case False
    let ?pre = "rescheduled h s2 rest a0 e0"
    have "Update_body h s2 = (case OnTimedEvent h f (delay e0) (repeats e0) ?pre of
                 None \<Rightarrow> None
               | Some s5 \<Rightarrow> if repeats e0 = 1 then RemoveEvent h a0 s5 else Some s5)"
      using Update_body_unfold[OF h(1,2), of h] h(3) False e0(3) by (simp add: option_case_id cong: option.case_cong)
    moreover have "eventMap ?pre f \<noteq> Some (next_addr s)" "calls ?pre = calls s2"
      using ne e0(3) by simp_all
    ultimately show ?thesis by blast
  qed
  show ?thesis
    apply (rule exI[of _ k0], rule exI[of _ e0], rule exI[of _ ?s1])
    using e0 ne s1 later by simp
qed

theorem AddEvent_same_handle_witness:
  "(case AddEvent example_host 1 10 10 2 ALEEventProcessor of
      None \<Rightarrow> False
    | Some s \<Rightarrow> well_formed s \<and> eventMap s 1 = Some 0 \<and>
        (case AddEvent example_host 1 20 20 1 s of
           None \<Rightarrow> False
         | Some s1 \<Rightarrow> eventMap s1 1 = Some 1 \<and> eventList s1 = [(10, 0), (20, 1)] \<and>
             (case Update example_host 2 10 s1 of
                Returns s2 \<Rightarrow> calls s2 = [OnTimedEvent_call 1 10 2] \<and> eventMap s2 1 = Some 0 \<and>
                   eventList s2 = [(20, 1), (20, 0)]
              | _ \<Rightarrow> False)))"
proof -
  obtain s where s: "AddEvent example_host 1 10 10 2 ALEEventProcessor = Some s"
    by (simp add: AddEvent_Some)
  have wf: "well_formed s" using well_formed_AddEvent[OF well_formed_init s] .
  have m: "eventMap s 1 = Some 0" using s by (auto simp: AddEvent_Some ALEEventProcessor_def)
  from AddEvent_same_handle[OF wf m, of example_host 20 20 1]
  obtain s1 where s1: "AddEvent example_host 1 20 20 1 s = Some s1"
    "eventMap s1 1 = Some (next_addr s)" by blast
  have n: "next_addr s = 1" using s by (auto simp: AddEvent_Some ALEEventProcessor_def)
  have l: "eventList s1 = [(10, 0), (20, 1)]"
    using s s1(1) by (auto simp: run_simps)
  have "case Update example_host 2 10 s1 of
                Returns s2 \<Rightarrow> calls s2 = [OnTimedEvent_call 1 10 2] \<and> eventMap s2 1 = Some 0 \<and>
                   eventList s2 = [(20, 1), (20, 0)]
              | _ \<Rightarrow> False"
    using s s1(1) by (auto simp: run_simps)
  then show ?thesis using s wf m s1 n l by simp
qed

subsection \<open>The pairing of eventList and eventMap\<close>

lemma listed_mappedD:
  "listed_mapped s \<Longrightarrow> (k, a) \<in> set (eventList s) \<Longrightarrow> heap s a = Some e \<Longrightarrow>
   state e \<noteq> LUAEVENT_STATE_ERASE \<Longrightarrow> eventMap s (funcRef e) = Some a"
  unfolding listed_mapped_def by blast

lemma listed_mappedI:
  "(\<And>k a e. (k, a) \<in> set (eventList s) \<Longrightarrow> heap s a = Some e \<Longrightarrow>
      state e \<noteq> LUAEVENT_STATE_ERASE \<Longrightarrow> eventMap s (funcRef e) = Some a) \<Longrightarrow> listed_mapped s"
  unfolding listed_mapped_def by blast

lemma consistent_paired: "consistent s \<Longrightarrow> paired s"
  unfolding consistent_def paired_def using wf_mapD by force

lemma consistent_init: "consistent ALEEventProcessor"
  by (simp add: consistent_def well_formed_init) (simp add: listed_mapped_def ALEEventProcessor_def)

lemma consistent_calls [simp]: "consistent (s\<lparr>calls := c\<rparr>) = consistent s"
  by (simp add: consistent_def well_formed_def listed_mapped_def)

lemma in_flight_AddEvent:
  assumes "well_formed s" "AddEvent h f mn mx r s = Some s'" "in_flight a e s"
  shows "in_flight a e s'"
proof -
  have "heap s (next_addr s) = None" using well_formed_fresh_heap[OF assms(1)] .
  moreover have "heap s a = Some e" "a \<notin> snd ` set (eventList s)" "\<And>g. eventMap s g \<noteq> Some a"
    using assms(3) by (auto simp: in_flight_def)
  ultimately have "a \<noteq> next_addr s" by auto
  then show ?thesis using assms(2,3)
    by (auto simp: AddEvent_Some in_flight_def image_iff split: if_splits)
qed

lemma in_flight_SetState:
  assumes "well_formed s" "SetState f st s = Some s'" "in_flight a e s"
  shows "in_flight a e s'"
  using assms(2,3) unfolding SetState_Some[OF assms(1)] in_flight_def
  by (auto split: option.splits if_splits)

lemma in_flight_SetStates:
  assumes "well_formed s" "SetStates st s = Some s'" "in_flight a e s"
  shows "in_flight a e s'"
  using assms(2,3) unfolding SetStates_Some[OF assms(1)] in_flight_def
  by (auto split: if_splits)

lemma consistent_AddEvent:
  assumes "consistent s" "eventMap s f = None"
  shows "\<exists>s'. AddEvent h f mn mx r s = Some s' \<and> consistent s' \<and> calls s' = calls s"
proof -
  have wf: "well_formed s" and lm: "listed_mapped s" using assms(1) by (simp_all add: consistent_def)
  let ?s' = "s\<lparr>heap := (heap s)(next_addr s \<mapsto> (LuaEvent_new f mn mx r)\<lparr>delay := urand h (draws s) mn mx\<rparr>),
             next_addr := Suc (next_addr s),
             draws := Suc (draws s),
             eventList := multimap_insert (m_time s + ucast (urand h (draws s) mn mx)) (next_addr s) (eventList s),
             eventMap := (eventMap s)(f \<mapsto> next_addr s)\<rparr>"
  have eq: "AddEvent h f mn mx r s = Some ?s'" by (rule AddEvent_Some)
  have wf': "well_formed ?s'" using well_formed_AddEvent[OF wf eq] .
  have fresh: "heap s (next_addr s) = None" using well_formed_fresh_heap[OF wf] .
  have "listed_mapped ?s'"
  proof (rule listed_mappedI)
    fix k a e assume l: "(k, a) \<in> set (eventList ?s')" and he: "heap ?s' a = Some e"
      and st: "state e \<noteq> LUAEVENT_STATE_ERASE"
    show "eventMap ?s' (funcRef e) = Some a"
    proof (cases "a = next_addr s")
      case True
      then show ?thesis using he by (auto simp: LuaEvent_new_def)
    next
      case False
      then have l': "(k, a) \<in> set (eventList s)" and he': "heap s a = Some e" using l he by auto
      from listed_mappedD[OF lm l' he' st] have m: "eventMap s (funcRef e) = Some a" .
      with assms(2) have "funcRef e \<noteq> f" by auto
      then show ?thesis using m by simp
    qed
  qed
  with wf' show ?thesis unfolding eq by (simp add: consistent_def)
qed

lemma consistent_SetState:
  assumes "consistent s"
  shows "\<exists>s'. SetState f st s = Some s' \<and> consistent s' \<and> calls s' = calls s"
proof -
  have wf: "well_formed s" and lm: "listed_mapped s" using assms(1) by (simp_all add: consistent_def)
  from well_formed_SetState[OF wf, of f st] obtain s' where s': "SetState f st s = Some s'"
    "well_formed s'" by blast
  show ?thesis
  proof (cases "eventMap s f")
    case None
    then have "s' = s" using s'(1) by (simp add: SetState_Some[OF wf])
    then show ?thesis using s' assms by simp
  next
    case (Some b)
    then have eq: "s' = s\<lparr>heap := (heap s)(b := map_option (LuaEvent_SetState st) (heap s b)),
                 eventMap := (if st = LUAEVENT_STATE_ERASE then (eventMap s)(f := None) else eventMap s)\<rparr>"
      using s'(1) by (simp add: SetState_Some[OF wf])
    from wf_mapD[OF wf Some] obtain eb where eb: "heap s b = Some eb" "funcRef eb = f"
      "state eb \<noteq> LUAEVENT_STATE_ERASE" by blast
    have "listed_mapped s'"
    proof (rule listed_mappedI)
      fix k a e assume l: "(k, a) \<in> set (eventList s')" and he: "heap s' a = Some e"
        and st: "state e \<noteq> LUAEVENT_STATE_ERASE"
      have l': "(k, a) \<in> set (eventList s)" using l by (simp add: eq)
      show "eventMap s' (funcRef e) = Some a"
      proof (cases "a = b")
        case True
        then have e: "e = LuaEvent_SetState st eb" using he eb by (simp add: eq)
        with st eb(3) have "st \<noteq> LUAEVENT_STATE_ERASE" by auto
        then show ?thesis using True e eb Some by (simp add: eq)
      next
        case False
        then have he': "heap s a = Some e" using he by (simp add: eq)
        from listed_mappedD[OF lm l' he' st] have m: "eventMap s (funcRef e) = Some a" .
        with Some False have "funcRef e \<noteq> f" by auto
        then show ?thesis using m by (simp add: eq)
      qed
    qed
    with s' show ?thesis by (simp add: consistent_def) (simp add: eq)
  qed
qed

lemma consistent_SetStates:
  assumes "consistent s"
  shows "\<exists>s'. SetStates st s = Some s' \<and> consistent s' \<and> calls s' = calls s"
proof -
  have wf: "well_formed s" and lm: "listed_mapped s" using assms(1) by (simp_all add: consistent_def)
  from well_formed_SetStates[OF wf, of st] obtain s' where s': "SetStates st s = Some s'"
    "well_formed s'" by blast
  have eq: "s' = s\<lparr>heap := (\<lambda>a. if a \<in> snd ` set (eventList s)
                          then map_option (LuaEvent_SetState st) (heap s a) else heap s a),
             eventMap := (if st = LUAEVENT_STATE_ERASE then Map.empty else eventMap s)\<rparr>"
    using s'(1) by (simp add: SetStates_Some[OF wf])
  have "listed_mapped s'"
  proof (rule listed_mappedI)
    fix k a e assume l: "(k, a) \<in> set (eventList s')" and he: "heap s' a = Some e"
      and st: "state e \<noteq> LUAEVENT_STATE_ERASE"
    have l': "(k, a) \<in> set (eventList s)" using l by (simp add: eq)
    then have "a \<in> snd ` set (eventList s)" by force
    with he obtain e0 where e0: "heap s a = Some e0" "e = LuaEvent_SetState st e0"
      by (auto simp: eq)
    from st e0(2) have ne: "state e0 \<noteq> LUAEVENT_STATE_ERASE" "st \<noteq> LUAEVENT_STATE_ERASE"
      by (auto split: if_splits)
    from listed_mappedD[OF lm l' e0(1) ne(1)] show "eventMap s' (funcRef e) = Some a"
      using ne(2) e0(2) by (simp add: eq)
  qed
  with s' show ?thesis by (simp add: consistent_def) (simp add: eq)
qed

lemma consistent_apply_ops:
  "consistent s \<Longrightarrow> adds_fresh h xs s \<Longrightarrow> in_flight a e s \<or> \<not> flag \<Longrightarrow>
   \<exists>s'. apply_ops h xs s = Some s' \<and> consistent s' \<and> calls s' = calls s \<and>
     (in_flight a e s' \<or> \<not> flag)"
proof (induction xs arbitrary: s)
  case Nil
  then show ?case by simp
next
  case (Cons x xs)
  have wf: "well_formed s" using Cons.prems(1) by (simp add: consistent_def)
  have "\<exists>s1. apply_op h x s = Some s1 \<and> consistent s1 \<and> calls s1 = calls s \<and>
     (in_flight a e s1 \<or> \<not> flag)"
  proof (cases x)
    case (Op_AddEvent f mn mx r)
    with Cons.prems(2) have "eventMap s f = None" by simp
    from consistent_AddEvent[OF Cons.prems(1) this, of h mn mx r]
    show ?thesis using Op_AddEvent in_flight_AddEvent[OF wf] Cons.prems(3) by auto
  next
    case (Op_SetState f st)
    from consistent_SetState[OF Cons.prems(1), of f st]
    show ?thesis using Op_SetState in_flight_SetState[OF wf] Cons.prems(3) by auto
  next
    case (Op_SetStates st)
    from consistent_SetStates[OF Cons.prems(1), of st]
    show ?thesis using Op_SetStates in_flight_SetStates[OF wf] Cons.prems(3) by auto
  qed
  then obtain s1 where s1: "apply_op h x s = Some s1" "consistent s1" "calls s1 = calls s"
    "in_flight a e s1 \<or> \<not> flag" by blast
  have "adds_fresh h xs s1" using Cons.prems(2) s1(1) by simp
  from Cons.IH[OF s1(2) this s1(4)] show ?case using s1 by auto
qed

lemma consistent_OnTimedEvent:
  assumes "consistent s" "script_adds_fresh h" "in_flight a e s \<or> \<not> flag"
  shows "\<exists>s'. OnTimedEvent h f d c s = Some s' \<and> consistent s' \<and> (in_flight a e s' \<or> \<not> flag)"
proof -
  let ?s1 = "s\<lparr>calls := calls s @ [OnTimedEvent_call f d c]\<rparr>"
  have fr: "adds_fresh h (script h f d c ?s1) ?s1"
    using assms(2) by (simp add: script_adds_fresh_def)
  have c: "consistent ?s1" using assms(1) by simp
  have fl: "in_flight a e ?s1 \<or> \<not> flag" using assms(3) by simp
  from consistent_apply_ops[OF c fr fl]
  show ?thesis by (auto simp: OnTimedEvent_unfold)
qed

lemma consistent_body:
  assumes "consistent s" "script_adds_fresh h" "eventList s = (k, a) # rest"
  shows "\<exists>s'. Update_body h s = Some s' \<and> consistent s'"
proof -
  have wf: "well_formed s" and lm: "listed_mapped s" using assms(1) by (simp_all add: consistent_def)
  from wf_listD[OF wf, of k a] assms(3) obtain e where e: "heap s a = Some e" by auto
  note unf = Update_body_unfold[OF assms(3) e, of h]
  note pop = well_formed_popped[OF wf assms(3) e]
  have nl: "a \<notin> snd ` set rest" using wf_distinct[OF wf] assms(3) by (auto simp: image_iff)
  have lm_pop: "listed_mapped (popped s rest e)"
  proof (rule listed_mappedI)
    fix k' c ec assume l: "(k', c) \<in> set (eventList (popped s rest e))"
      and he: "heap (popped s rest e) c = Some ec" and st: "state ec \<noteq> LUAEVENT_STATE_ERASE"
    have l': "(k', c) \<in> set (eventList s)" using l assms(3) by simp
    have ca: "c \<noteq> a" using l nl by force
    from listed_mappedD[OF lm l'] he st have m: "eventMap s (funcRef ec) = Some c" by simp
    have "state e \<noteq> LUAEVENT_STATE_ERASE \<Longrightarrow> funcRef ec \<noteq> funcRef e"
    proof
      assume "state e \<noteq> LUAEVENT_STATE_ERASE" "funcRef ec = funcRef e"
      with listed_mappedD[OF lm _ e, of k] assms(3) m ca show False by simp
    qed
    then show "eventMap (popped s rest e) (funcRef ec) = Some c" using m by simp
  qed
  have c_pop: "consistent (popped s rest e)" using pop(1) lm_pop by (simp add: consistent_def)
  have del: "consistent (s1\<lparr>calls := cs, heap := (heap s1)(a := None)\<rparr>)"
    if "consistent s1" "in_flight a e1 s1" for s1 e1 cs
  proof -
    have wf1: "well_formed s1" and lm1: "listed_mapped s1" using that(1) by (simp_all add: consistent_def)
    have nl1: "a \<notin> snd ` set (eventList s1)" using that(2) by (simp add: in_flight_def)
    have "listed_mapped (s1\<lparr>calls := cs, heap := (heap s1)(a := None)\<rparr>)"
      using lm1 nl1 unfolding listed_mapped_def by (auto simp: image_iff split: if_splits)
    with well_formed_delete[OF wf1 that(2), of cs] show ?thesis by (simp add: consistent_def)
  qed
  show ?thesis
  proof (cases "state e = LUAEVENT_STATE_RUN")
    case False
    have hp: "heap (popped s rest e) a = Some e" using e by simp
    from del[OF c_pop pop(2)] show ?thesis
      using unf False RemoveEvent_Some[OF hp, of h] by simp
  next
    case run: True
    show ?thesis
    proof (cases "repeats e = 1")
      case True
      let ?s4 = "(popped s rest e)\<lparr>heap := (heap s)(a \<mapsto> dec_repeats e)\<rparr>"
      have wf4: "well_formed ?s4" "in_flight a (dec_repeats e) ?s4"
        using well_formed_heap_in_flight[OF pop, of "dec_repeats e"] by simp_all
      have "listed_mapped ?s4"
        using lm_pop nl unfolding listed_mapped_def by (auto simp: image_iff)
      with wf4(1) have c4: "consistent ?s4" by (simp add: consistent_def)
      from consistent_OnTimedEvent[OF c4 assms(2), of a "dec_repeats e" True "funcRef e" "delay e" "repeats e"]
        wf4(2)
      obtain s5 where s5: "OnTimedEvent h (funcRef e) (delay e) (repeats e) ?s4 = Some s5"
        "consistent s5" "in_flight a (dec_repeats e) s5" by auto
      have h5: "heap s5 a = Some (dec_repeats e)" using s5(3) by (simp add: in_flight_def)
      from del[OF s5(2,3)] show ?thesis
        using unf run True s5(1) RemoveEvent_Some[OF h5, of h] by simp
    next
      case False
      let ?rs = "rescheduled h s rest a e"
      have wfr: "well_formed ?rs" using well_formed_rescheduled[OF wf assms(3) e run] .
      have "listed_mapped ?rs"
      proof (rule listed_mappedI)
        fix k' c ec assume l: "(k', c) \<in> set (eventList ?rs)"
          and he: "heap ?rs c = Some ec" and st: "state ec \<noteq> LUAEVENT_STATE_ERASE"
        show "eventMap ?rs (funcRef ec) = Some c"
        proof (cases "c = a")
          case True
          then show ?thesis using he by auto
        next
          case ca: False
          then have l': "(k', c) \<in> set (eventList s)" and he': "heap s c = Some ec"
            using l he assms(3) by auto
          from listed_mappedD[OF lm l' he' st] have m: "eventMap s (funcRef ec) = Some c" .
          have "funcRef ec \<noteq> funcRef e"
          proof
            assume "funcRef ec = funcRef e"
            with listed_mappedD[OF lm _ e, of k] assms(3) m ca run show False by simp
          qed
          then show ?thesis using m by simp
        qed
      qed
      with wfr have cr: "consistent ?rs" by (simp add: consistent_def)
      from consistent_OnTimedEvent[OF cr assms(2), of a e False "funcRef e" "delay e" "repeats e"]
      show ?thesis using unf run False by auto
    qed
  qed
qed

lemma consistent_loop:
  assumes "script_adds_fresh h"
  shows "consistent s \<Longrightarrow> Update_loop h fuel s \<noteq> Faults \<and>
     (\<forall>s'. Update_loop h fuel s = Returns s' \<longrightarrow> consistent s')"
proof (induction fuel arbitrary: s)
  case 0
  then show ?case by simp
next
  case (Suc n)
  show ?case
  proof (cases "Update_cond s")
    case False
    then show ?thesis using Suc.prems by simp
  next
    case True
    then obtain k a rest where "eventList s = (k, a) # rest"
      by (auto simp: Update_cond_def split: list.splits)
    from consistent_body[OF Suc.prems assms this] obtain s1 where
      s1: "Update_body h s = Some s1" "consistent s1" by blast
    from Suc.IH[OF s1(2)] show ?thesis using True s1(1) by simp
  qed
qed

text \<open>
  Claim C7, as stated, fails: after two \<open>AddEvent\<close> calls with the same handle the first
  event is in \<open>eventList\<close> and in state RUN, but \<open>eventMap\<close> holds the second event for the
  handle.
\<close>

theorem same_handle_breaks_pairing:
  "\<not> (case AddEvent example_host 1 10 10 1 ALEEventProcessor of
        None \<Rightarrow> True
      | Some s \<Rightarrow> (case AddEvent example_host 1 20 20 1 s of None \<Rightarrow> True | Some s1 \<Rightarrow> paired s1))"
  by (simp add: AddEvent_Some paired_def listed_mapped_def ALEEventProcessor_def LuaEvent_new_def
      example_host_def)

text \<open>
  Claim C7, amended. The constructor's state is consistent; a consistent state has the
  pairing of the spec; and \<open>AddEvent\<close> with a handle that \<open>eventMap\<close> does not hold,
  \<open>SetState\<close>, \<open>SetStates\<close>, and every call of \<open>Update\<close> that returns (with callbacks that
  add only handles \<open>eventMap\<close> does not hold) lead from a consistent state to a consistent
  state, without a fault.
\<close>

theorem pairing_invariant:
  assumes "consistent s"
  shows "consistent ALEEventProcessor \<and> paired s \<and>
     (eventMap s f = None \<longrightarrow> (\<exists>s'. AddEvent h f mn mx r s = Some s' \<and> consistent s')) \<and>
     (\<exists>s'. SetState f st s = Some s' \<and> consistent s') \<and>
     (\<exists>s'. SetStates st s = Some s' \<and> consistent s') \<and>
     (script_adds_fresh h \<longrightarrow> Update h fuel diff s \<noteq> Faults \<and>
        (\<forall>s'. Update h fuel diff s = Returns s' \<longrightarrow> consistent s'))"
proof -
  have adv: "consistent (advance diff s)" using assms
    by (simp add: consistent_def well_formed_def listed_mapped_def)
  show ?thesis
    using consistent_init consistent_paired[OF assms] consistent_AddEvent[OF assms, of f h mn mx r]
      consistent_SetState[OF assms, of f st] consistent_SetStates[OF assms, of st]
      consistent_loop[OF _ adv, of h fuel]
    by (auto simp: Update_advance)
qed

theorem pairing_invariant_witness:
  "consistent ALEEventProcessor \<and> script_adds_fresh example_host \<and>
   (\<exists>s s'. AddEvent example_host 3 10 10 0 ALEEventProcessor = Some s \<and> consistent s \<and>
      Update example_host 1 10 s = Returns s' \<and> consistent s' \<and> paired s' \<and>
      eventList s' = [(20, 0)] \<and> eventMap s' 3 = Some 0 \<and>
      map_option state (heap s' 0) = Some LUAEVENT_STATE_ABORT)"
proof -
  have fr: "script_adds_fresh example_host"
    unfolding script_adds_fresh_def
  proof (intro allI)
    fix f d c s
    show "adds_fresh example_host (script example_host f d c s) s"
      by (simp add: example_host_def split: option.splits)
  qed
  have m: "eventMap ALEEventProcessor 3 = None" by (simp add: ALEEventProcessor_def)
  from pairing_invariant[OF consistent_init, of 3 example_host 10 10 0] m
  obtain s where s: "AddEvent example_host 3 10 10 0 ALEEventProcessor = Some s" "consistent s"
    by blast
  have "\<exists>s'. Update example_host 1 10 s = Returns s' \<and> eventList s' = [(20, 0)] \<and>
      eventMap s' 3 = Some 0 \<and> map_option state (heap s' 0) = Some LUAEVENT_STATE_ABORT"
    using s(1) by (auto simp: run_simps)
  then obtain s' where s': "Update example_host 1 10 s = Returns s'" "eventList s' = [(20, 0)]"
    "eventMap s' 3 = Some 0" "map_option state (heap s' 0) = Some LUAEVENT_STATE_ABORT" by blast
  from pairing_invariant[OF s(2), where h = example_host and fuel = 1 and diff = 10]
    fr s'(1) have c': "consistent s'" by blast
  from pairing_invariant[OF c']
  have "paired s'" by blast
  with consistent_init fr s s' c' show ?thesis by blast
qed

subsection \<open>Hosts whose callbacks leave the processor alone\<close>


lemma calls_of_append [simp]: "calls_of f (xs @ ys) = calls_of f xs @ calls_of f ys"
  by (simp add: calls_of_def)







subsection \<open>One handle through a drain\<close>







subsection \<open>One handle through successive drains\<close>

lemma tracked_advance [simp]: "tracked f a k e (advance diff s) = tracked f a k e s"
  by (simp add: tracked_def)

lemma no_handle_advance [simp]: "no_handle f (advance diff s) = no_handle f s"
  by (simp add: no_handle_def)







subsection \<open>Repeating events\<close>






subsection \<open>Cancelled events\<close>








subsection \<open>Cancelled events: the scenarios of the spec\<close>




end
